theory Spec2Isabelle
  imports Complex_Main "HOL-Library.AList" "HOL-Library.Multiset" "HOL-Library.Word"
begin

section \<open>Integers of the source\<close>

text \<open>
  Kotlin's \<open>Int\<close> is a 32-bit two's complement integer whose arithmetic wraps around:
  \<open>wrap32\<close> is the value an \<open>Int\<close> operation returns for the exact result \<open>n\<close>. It is
  written out for the score, the multiplier and the orb product, for the cells of a
  piece (\<open>getBlocks\<close>) and for the step down (\<open>moveDown\<close>). The grid's \<open>width\<close> and
  \<open>height\<close> are stored as 32-bit words and read as signed integers. Kotlin's \<open>/\<close> and
  \<open>%\<close> on \<open>Int\<close> truncate towards zero: \<open>tdiv\<close> and \<open>trem\<close>.
\<close>

definition wrap32 :: "int \<Rightarrow> int" where
  "wrap32 n = (n + 2147483648) mod 4294967296 - 2147483648"

definition int32 :: "int \<Rightarrow> bool" where
  "int32 n = (- 2147483648 \<le> n \<and> n < 2147483648)"

lemma wrap32_id: "int32 n \<Longrightarrow> wrap32 n = n"
  by (simp add: int32_def wrap32_def)

lemma int32_wrap32: "int32 (wrap32 n)"
  by (simp add: int32_def wrap32_def)

lemma wrap32_add_left: "wrap32 (wrap32 a + b) = wrap32 (a + b)"
proof -
  have "((a + 2147483648) mod 4294967296 + b) mod 4294967296
      = (a + 2147483648 + b) mod (4294967296::int)"
    by (rule mod_add_left_eq)
  moreover have "wrap32 a + b + 2147483648 = (a + 2147483648) mod 4294967296 + b"
    by (simp add: wrap32_def)
  moreover have "a + b + 2147483648 = a + 2147483648 + b"
    by simp
  ultimately show ?thesis
    unfolding wrap32_def [of "wrap32 a + b"] wrap32_def [of "a + b"] by presburger
qed

definition tdiv :: "int \<Rightarrow> int \<Rightarrow> int" where
  "tdiv a b = sgn a * sgn b * (\<bar>a\<bar> div \<bar>b\<bar>)"

definition trem :: "int \<Rightarrow> int \<Rightarrow> int" where
  "trem a b = a - tdiv a b * b"

section \<open>Tetrimino.kt: positions, piece types, shapes\<close>

datatype Position = Position (posX: int) (posY: int)

text \<open>
  The seven piece types \<open>I, O, T, L, J, S, Z\<close> of \<open>enum class TetriminoType\<close>; the
  constructors carry a prefix because \<open>O\<close> is taken by relation composition.
\<close>

datatype TetriminoType = Type_I | Type_O | Type_T | Type_L | Type_J | Type_S | Type_Z

datatype PowerUpType = BOMB | LINE_CLEAR | GHOST

type_synonym Color = int

text \<open>The ARGB values of \<open>Color.kt\<close>: the seven block colours are pairwise different.\<close>

fun color :: "TetriminoType \<Rightarrow> Color" where
  "color Type_I = 0xFF3F51B5"
| "color Type_O = 0xFF4CAF50"
| "color Type_T = 0xFFFF4081"
| "color Type_L = 0xFFFF9800"
| "color Type_J = 0xFF2196F3"
| "color Type_S = 0xFF8BC34A"
| "color Type_Z = 0xFFF44336"

text \<open>
  \<open>getShape(rotation)\<close>: the bitmap of a type at a rotation. \<open>I\<close>, \<open>S\<close> and \<open>Z\<close> select
  on \<open>rotation % 2\<close> with the branches \<open>0\<close> and \<open>else\<close>; \<open>T\<close>, \<open>L\<close> and \<open>J\<close> select on
  \<open>rotation\<close> itself with the branches \<open>0\<close>, \<open>1\<close>, \<open>2\<close> and \<open>else\<close>.
\<close>

fun getShape :: "TetriminoType \<Rightarrow> int \<Rightarrow> int list list" where
  "getShape Type_I rotation =
     (if trem rotation 2 = 0
      then [[0, 0, 0, 0], [1, 1, 1, 1], [0, 0, 0, 0], [0, 0, 0, 0]]
      else [[0, 0, 1, 0], [0, 0, 1, 0], [0, 0, 1, 0], [0, 0, 1, 0]])"
| "getShape Type_O rotation = [[1, 1], [1, 1]]"
| "getShape Type_T rotation =
     (if rotation = 0 then [[0, 1, 0], [1, 1, 1], [0, 0, 0]]
      else if rotation = 1 then [[0, 1, 0], [0, 1, 1], [0, 1, 0]]
      else if rotation = 2 then [[0, 0, 0], [1, 1, 1], [0, 1, 0]]
      else [[0, 1, 0], [1, 1, 0], [0, 1, 0]])"
| "getShape Type_L rotation =
     (if rotation = 0 then [[0, 0, 1], [1, 1, 1], [0, 0, 0]]
      else if rotation = 1 then [[0, 1, 0], [0, 1, 0], [0, 1, 1]]
      else if rotation = 2 then [[0, 0, 0], [1, 1, 1], [1, 0, 0]]
      else [[1, 1, 0], [0, 1, 0], [0, 1, 0]])"
| "getShape Type_J rotation =
     (if rotation = 0 then [[1, 0, 0], [1, 1, 1], [0, 0, 0]]
      else if rotation = 1 then [[0, 1, 1], [0, 1, 0], [0, 1, 0]]
      else if rotation = 2 then [[0, 0, 0], [1, 1, 1], [0, 0, 1]]
      else [[0, 1, 0], [0, 1, 0], [1, 1, 0]])"
| "getShape Type_S rotation =
     (if trem rotation 2 = 0
      then [[0, 1, 1], [1, 1, 0], [0, 0, 0]]
      else [[0, 1, 0], [0, 1, 1], [0, 0, 1]])"
| "getShape Type_Z rotation =
     (if trem rotation 2 = 0
      then [[1, 1, 0], [0, 1, 1], [0, 0, 0]]
      else [[0, 0, 1], [0, 1, 1], [0, 1, 0]])"

datatype Tetrimino =
  Tetrimino (ttype: TetriminoType) (position: Position) (rotation: int)
    (powerUp: "PowerUpType option")

definition shape :: "Tetrimino \<Rightarrow> int list list" where
  "shape t = getShape (ttype t) (rotation t)"

text \<open>
  \<open>getBlocks()\<close>: the two nested loops over the bitmap's indices, row by row, collect
  the cells that hold a \<open>1\<close>, offset by the piece's position (\<open>position.x + x\<close> and
  \<open>position.y + y\<close> are \<open>Int\<close> sums).
\<close>

definition rowBlocks :: "Position \<Rightarrow> nat \<Rightarrow> int list \<Rightarrow> Position list" where
  "rowBlocks p yi row =
     map (\<lambda>(xi, v). Position (wrap32 (posX p + int xi)) (wrap32 (posY p + int yi)))
       (filter (\<lambda>(xi, v). v = 1) (enumerate 0 row))"

definition getBlocks :: "Tetrimino \<Rightarrow> Position list" where
  "getBlocks t =
     concat (map (\<lambda>(yi, row). rowBlocks (position t) yi row) (enumerate 0 (shape t)))"

definition tetriminoMoveLeft :: "Tetrimino \<Rightarrow> Tetrimino" where
  "tetriminoMoveLeft t =
     Tetrimino (ttype t) (Position (posX (position t) - 1) (posY (position t)))
       (rotation t) (powerUp t)"

definition tetriminoMoveRight :: "Tetrimino \<Rightarrow> Tetrimino" where
  "tetriminoMoveRight t =
     Tetrimino (ttype t) (Position (posX (position t) + 1) (posY (position t)))
       (rotation t) (powerUp t)"

definition tetriminoMoveDown :: "Tetrimino \<Rightarrow> Tetrimino" where
  "tetriminoMoveDown t =
     Tetrimino (ttype t) (Position (posX (position t)) (wrap32 (posY (position t) + 1)))
       (rotation t) (powerUp t)"

definition tetriminoRotate :: "Tetrimino \<Rightarrow> Tetrimino" where
  "tetriminoRotate t = Tetrimino (ttype t) (position t) (trem (rotation t + 1) 4) (powerUp t)"

text \<open>
  \<open>Tetrimino(randomType, powerUp = powerUp)\<close>: a new piece starts at the default
  position \<open>(4, 0)\<close> with rotation \<open>0\<close>.
\<close>

definition newTetrimino :: "TetriminoType \<Rightarrow> PowerUpType option \<Rightarrow> Tetrimino" where
  "newTetrimino ty pu = Tetrimino ty (Position 4 0) 0 pu"

section \<open>Orb.kt\<close>

datatype OrbType = SMALL | MEDIUM | LARGE

fun orbTypeMultiplier :: "OrbType \<Rightarrow> int" where
  "orbTypeMultiplier SMALL = 2"
| "orbTypeMultiplier MEDIUM = 3"
| "orbTypeMultiplier LARGE = 5"

datatype Orb = Orb (orbPosition: Position) (orbMultiplier: int) (orbType: OrbType)

section \<open>Random numbers and single-precision constants\<close>

text \<open>
  \<open>Random.nextFloat()\<close> returns \<open>nextBits(24) / 2^24\<close>: one of the \<open>2^24\<close> equally
  likely multiples of \<open>2^-24\<close> in \<open>[0, 1)\<close>. A draw is given by its 24 random bits, and
  its value is an exact rational. \<open>Random.nextInt(n)\<close> returns some index below \<open>n\<close>;
  a draw is given by an integer, reduced modulo \<open>n\<close>, so that every index can be
  drawn and none is out of range. The \<open>Float\<close> literals of the source are the exact
  values of their single-precision representations.
\<close>

definition nextFloat :: "int \<Rightarrow> rat" where
  "nextFloat bits = of_int (bits mod 16777216) / 16777216"

definition nextInt :: "nat \<Rightarrow> int \<Rightarrow> nat" where
  "nextInt n draw = nat (draw mod int n)"

definition float_0_3 :: rat where "float_0_3 = 5033165 / 16777216"
definition float_0_5 :: rat where "float_0_5 = 1 / 2"
definition float_0_75 :: rat where "float_0_75 = 3 / 4"
definition float_0_6 :: rat where "float_0_6 = 5033165 / 8388608"
definition float_0_9 :: rat where "float_0_9 = 7549747 / 8388608"
definition float_0_05 :: rat where "float_0_05 = 13421773 / 268435456"
definition float_0_01 :: rat where "float_0_01 = 5368709 / 536870912"
definition float_0_15 :: rat where "float_0_15 = 5033165 / 33554432"

text \<open>\<open>Orb.createRandom(position)\<close>: 60% small, 30% medium, 10% large.\<close>

definition createRandom :: "Position \<Rightarrow> int \<Rightarrow> Orb" where
  "createRandom p bits =
     (let random = nextFloat bits;
          ty = (if random < float_0_6 then SMALL
                else if random < float_0_9 then MEDIUM
                else LARGE)
      in Orb p (orbTypeMultiplier ty) ty)"

section \<open>Grid.kt\<close>

text \<open>
  The grid of \<open>class Grid(val width: Int = 10, val height: Int = 20)\<close>: the cell matrix
  (an array of \<open>height\<close> rows, each an array of \<open>width\<close> colour indices, \<open>0\<close> for an
  empty cell), the colour map in insertion order, the next colour index, and the list
  of orbs.
\<close>

record Grid =
  gridWidth :: "32 word"
  gridHeight :: "32 word"
  cells :: "int list list"
  colorMap :: "(int \<times> Color) list"
  nextColorIndex :: int
  orbs :: "Orb list"

text \<open>\<open>val width: Int\<close> and \<open>val height: Int\<close>, read as integers.\<close>

definition width :: "Grid \<Rightarrow> int" where
  "width g = sint (gridWidth g)"

definition height :: "Grid \<Rightarrow> int" where
  "height g = sint (gridHeight g)"

definition newGrid :: "32 word \<Rightarrow> 32 word \<Rightarrow> Grid" where
  "newGrid w h =
     \<lparr>gridWidth = w, gridHeight = h,
      cells = replicate (nat (sint h)) (replicate (nat (sint w)) 0),
      colorMap = [], nextColorIndex = 1, orbs = []\<rparr>"

definition maxOrbs :: int where
  "maxOrbs = 4"

text \<open>
  The arrays of the source have fixed sizes: in every state of a \<open>Grid\<close> object the
  matrix has \<open>height\<close> rows of \<open>width\<close> cells. Reads inside these bounds are list
  lookups; the two public methods that index the matrix with an argument
  (\<open>clearLine\<close>, \<open>shiftLinesDown\<close>) return \<open>None\<close> where the source throws
  \<open>ArrayIndexOutOfBoundsException\<close>.
\<close>

definition wf_grid :: "Grid \<Rightarrow> bool" where
  "wf_grid g =
     (0 < width g \<and> 0 < height g \<and> length (cells g) = nat (height g) \<and>
      list_all (\<lambda>row. length row = nat (width g)) (cells g))"

definition isInBounds :: "Grid \<Rightarrow> Position \<Rightarrow> bool" where
  "isInBounds g p = (0 \<le> posX p \<and> posX p < width g \<and> 0 \<le> posY p \<and> posY p < height g)"

definition cellAt :: "Grid \<Rightarrow> Position \<Rightarrow> int" where
  "cellAt g p = cells g ! nat (posY p) ! nat (posX p)"

definition setCell :: "Grid \<Rightarrow> Position \<Rightarrow> int \<Rightarrow> Grid" where
  "setCell g p v =
     g\<lparr>cells := (cells g)[nat (posY p) := (cells g ! nat (posY p))[nat (posX p) := v]]\<rparr>"

definition isEmpty :: "Grid \<Rightarrow> Position \<Rightarrow> bool" where
  "isEmpty g p = (if isInBounds g p then cellAt g p = 0 else False)"

definition canPlace :: "Grid \<Rightarrow> Tetrimino \<Rightarrow> bool" where
  "canPlace g t = list_all (isEmpty g) (getBlocks t)"

text \<open>
  \<open>getColorIndex(color)\<close>: the key of the first entry with that colour, or else a new
  index, recorded in the map.
\<close>

definition getColorIndex :: "Grid \<Rightarrow> Color \<Rightarrow> int \<times> Grid" where
  "getColorIndex g c =
     (case find (\<lambda>(k, v). v = c) (colorMap g) of
        Some (k, v) \<Rightarrow> (k, g)
      | None \<Rightarrow>
          (nextColorIndex g,
           g\<lparr>nextColorIndex := nextColorIndex g + 1,
             colorMap := AList.update (nextColorIndex g) c (colorMap g)\<rparr>))"

definition place :: "Grid \<Rightarrow> Tetrimino \<Rightarrow> Grid" where
  "place g t =
     (let (colorIndex, g1) = getColorIndex g (color (ttype t))
      in fold (\<lambda>p ga. if isInBounds ga p then setCell ga p colorIndex else ga)
           (getBlocks t) g1)"

definition isLineComplete :: "Grid \<Rightarrow> int \<Rightarrow> bool" where
  "isLineComplete g yy = list_all (\<lambda>v. 0 < v) (cells g ! nat yy)"

text \<open>
  \<open>clearLine(y)\<close>: the loop \<open>for (x in 0 until width) cells[y][x] = 0\<close>. With a
  positive width, a row index outside the matrix throws.
\<close>

definition clearLine :: "Grid \<Rightarrow> int \<Rightarrow> Grid option" where
  "clearLine g yy =
     (if 0 < width g \<and> (yy < 0 \<or> height g \<le> yy) then None
      else Some (g\<lparr>cells := (cells g)[nat yy :=
                  fold (\<lambda>xi row. row[xi := 0]) [0..<nat (width g)] (cells g ! nat yy)]\<rparr>))"

definition clearCell :: "Grid \<Rightarrow> Position \<Rightarrow> Grid" where
  "clearCell g p = (if isInBounds g p then setCell g p 0 else g)"

text \<open>
  \<open>shiftOrbsDown(clearedY)\<close>: \<open>orbs.forEach\<close> walks the live list by index; an orb
  above the cleared row is replaced, at the index \<open>orbs.indexOf(orb)\<close> of the first
  element equal to it, by a copy one row lower. The orb is an element of the list, so
  \<open>indexOf\<close> finds it.
\<close>

fun indexOf :: "'a list \<Rightarrow> 'a \<Rightarrow> nat" where
  "indexOf [] a = 0"
| "indexOf (b # bs) a = (if b = a then 0 else Suc (indexOf bs a))"

definition shiftedOrb :: "Orb \<Rightarrow> Orb" where
  "shiftedOrb orb =
     Orb (Position (posX (orbPosition orb)) (posY (orbPosition orb) + 1))
       (orbMultiplier orb) (orbType orb)"

function shiftOrbsDown_loop :: "int \<Rightarrow> nat \<Rightarrow> Orb list \<Rightarrow> Orb list" where
  "shiftOrbsDown_loop clearedY i os =
     (if i < length os then
        (let orb = os ! i in
         if posY (orbPosition orb) < clearedY
         then shiftOrbsDown_loop clearedY (Suc i) (os[indexOf os orb := shiftedOrb orb])
         else shiftOrbsDown_loop clearedY (Suc i) os)
      else os)"
  by pat_completeness auto
termination
  by (relation "measure (\<lambda>(clearedY, i, os). length os - i)") auto

declare shiftOrbsDown_loop.simps [simp del]

definition shiftOrbsDown :: "Grid \<Rightarrow> int \<Rightarrow> Grid" where
  "shiftOrbsDown g clearedY = g\<lparr>orbs := shiftOrbsDown_loop clearedY 0 (orbs g)\<rparr>"

text \<open>
  \<open>shiftLinesDown(clearedY)\<close>: \<open>for (y in clearedY downTo 1) cells[y] = cells[y - 1].clone()\<close>,
  then \<open>clearLine(0)\<close> and \<open>shiftOrbsDown(clearedY)\<close>. The first assignment throws when
  \<open>clearedY\<close> is a positive index outside the matrix.
\<close>

definition shiftLinesDown :: "Grid \<Rightarrow> int \<Rightarrow> Grid option" where
  "shiftLinesDown g clearedY =
     (if 1 \<le> clearedY \<and> height g \<le> clearedY then None
      else
        (case clearLine
                (g\<lparr>cells := fold (\<lambda>yi cs. cs[yi := cs ! (yi - 1)])
                              (rev [1..<Suc (nat clearedY)]) (cells g)\<rparr>) 0 of
           None \<Rightarrow> None
         | Some g1 \<Rightarrow> Some (shiftOrbsDown g1 clearedY)))"

definition isGameOver :: "Grid \<Rightarrow> bool" where
  "isGameOver g = list_ex (\<lambda>v. 0 < v) (cells g ! 0)"

definition reset :: "Grid \<Rightarrow> Grid" where
  "reset g =
     g\<lparr>cells := fold (\<lambda>yi cs. cs[yi := fold (\<lambda>xi row. row[xi := 0])
                                          [0..<nat (width g)] (cs ! yi)])
                  [0..<nat (height g)] (cells g),
       colorMap := [], nextColorIndex := 1, orbs := []\<rparr>"

definition isOrbAt :: "Grid \<Rightarrow> Position \<Rightarrow> bool" where
  "isOrbAt g p =
     list_ex (\<lambda>orb. posX (orbPosition orb) = posX p \<and> posY (orbPosition orb) = posY p)
       (orbs g)"

text \<open>
  The random draws of one call of \<open>clearLines()\<close>, in the order the source makes them:
  the spawn roll, and inside \<open>trySpawnOrb()\<close> the roll between the lower and the upper
  half, the index into the chosen list, and the roll of the orb's type.
\<close>

record OrbDraws =
  spawnRoll :: int
  halfRoll :: int
  positionPick :: int
  orbTypeRoll :: int

definition spawnCandidates :: "Grid \<Rightarrow> Position list" where
  "spawnCandidates g =
     concat (map (\<lambda>yy. concat (map (\<lambda>xx.
                 if isEmpty g (Position xx yy) \<and> \<not> isOrbAt g (Position xx yy)
                 then [Position xx yy] else [])
               [0..width g - 1]))
       [4..height g - 1])"

definition trySpawnOrb :: "Grid \<Rightarrow> OrbDraws \<Rightarrow> Grid" where
  "trySpawnOrb g d =
     (if maxOrbs \<le> int (length (orbs g)) then g
      else
        (let midpoint = tdiv (height g + 4) 2;
             upperHalfPositions = filter (\<lambda>p. posY p < midpoint) (spawnCandidates g);
             lowerHalfPositions = filter (\<lambda>p. \<not> posY p < midpoint) (spawnCandidates g);
             chosen =
               (if lowerHalfPositions = [] \<and> upperHalfPositions = [] then None
                else if lowerHalfPositions = [] then
                  Some (upperHalfPositions !
                          nextInt (length upperHalfPositions) (positionPick d))
                else if upperHalfPositions = [] then
                  Some (lowerHalfPositions !
                          nextInt (length lowerHalfPositions) (positionPick d))
                else if nextFloat (halfRoll d) < float_0_75 then
                  Some (lowerHalfPositions !
                          nextInt (length lowerHalfPositions) (positionPick d))
                else
                  Some (upperHalfPositions !
                          nextInt (length upperHalfPositions) (positionPick d)))
         in case chosen of
              None \<Rightarrow> g
            | Some p \<Rightarrow> g\<lparr>orbs := orbs g @ [createRandom p (orbTypeRoll d)]\<rparr>))"

text \<open>
  The scan of \<open>clearLines()\<close>: \<open>y\<close> runs from the bottom row up and stays where a row
  was cleared. The loop has no bound of its own, so it is a partial function: \<open>None\<close>
  where the source does not return a value.
\<close>

partial_function (option) clearLines_loop ::
  "Grid \<Rightarrow> int \<Rightarrow> int \<Rightarrow> int \<Rightarrow> Orb list \<Rightarrow> (Grid \<times> int \<times> int \<times> Orb list) option"
where
  "clearLines_loop g yy linesCleared totalMultiplier orbsToRemove =
     (if 0 \<le> yy then
        (if isLineComplete g yy then
           (let hit = filter (\<lambda>orb. posY (orbPosition orb) = yy) (orbs g) in
            case clearLine g yy of
              None \<Rightarrow> None
            | Some g1 \<Rightarrow>
                (case shiftLinesDown g1 yy of
                   None \<Rightarrow> None
                 | Some g2 \<Rightarrow>
                     clearLines_loop g2 yy (linesCleared + 1)
                       (fold (\<lambda>orb m. wrap32 (m * orbMultiplier orb)) hit totalMultiplier)
                       (orbsToRemove @ hit)))
         else clearLines_loop g (yy - 1) linesCleared totalMultiplier orbsToRemove)
      else Some (g, linesCleared, totalMultiplier, orbsToRemove))"

declare clearLines_loop.simps [code]

definition clearLines :: "Grid \<Rightarrow> OrbDraws \<Rightarrow> (Grid \<times> int \<times> int) option" where
  "clearLines g d =
     (case clearLines_loop g (height g - 1) 0 1 [] of
        None \<Rightarrow> None
      | Some (g1, linesCleared, totalMultiplier, orbsToRemove) \<Rightarrow>
          (let hadFourOrbs = (int (length (orbs g1)) = maxOrbs);
               willHaveLessThanMax =
                 (int (length (orbs g1)) - int (length orbsToRemove) < maxOrbs);
               g2 = g1\<lparr>orbs := filter (\<lambda>orb. orb \<notin> set orbsToRemove) (orbs g1)\<rparr>;
               g3 = (if int (length (orbs g2)) < maxOrbs then
                       (let spawnChance =
                              (if hadFourOrbs \<and> willHaveLessThanMax
                               then float_0_5 else float_0_3)
                        in if nextFloat (spawnRoll d) < spawnChance
                           then trySpawnOrb g2 d else g2)
                     else g2)
           in Some (g3, linesCleared, totalMultiplier)))"

section \<open>PowerUpType: single-precision arithmetic of the power-up chance\<close>

text \<open>
  \<open>shouldGeneratePowerUp(level)\<close> computes \<open>(0.05f + level * 0.01f).coerceAtMost(0.15f)\<close>
  in \<open>Float\<close>: the level is converted to \<open>Float\<close>, and the product and the sum are each
  rounded to the nearest single-precision value (24 significant bits, ties to even).
  \<open>toFloat\<close> is that rounding on exact rationals; the values that occur are far from the
  overflow and the subnormal range, which are left out.
\<close>

function bitLength :: "int \<Rightarrow> nat" where
  "bitLength n = (if n \<le> 0 then 0 else Suc (bitLength (n div 2)))"
  by pat_completeness auto
termination
  by (relation "measure nat") auto

declare bitLength.simps [simp del]

definition ilog2 :: "rat \<Rightarrow> int" where
  "ilog2 q =
     (if 1 \<le> q then int (bitLength \<lfloor>q\<rfloor>) - 1
      else - int (bitLength (\<lceil>1 / q\<rceil> - 1)))"

definition pow2 :: "int \<Rightarrow> rat" where
  "pow2 e = (if 0 \<le> e then 2 ^ nat e else 1 / 2 ^ nat (- e))"

definition roundHalfEven :: "rat \<Rightarrow> int" where
  "roundHalfEven q =
     (let f = \<lfloor>q\<rfloor>; d = q - of_int f
      in if d < 1 / 2 then f
         else if 1 / 2 < d then f + 1
         else if even f then f else f + 1)"

definition toFloat :: "rat \<Rightarrow> rat" where
  "toFloat q =
     (if q = 0 then 0
      else (let u = pow2 (ilog2 \<bar>q\<bar> - 23)
            in sgn q * of_int (roundHalfEven (\<bar>q\<bar> / u)) * u))"

definition powerUpChance :: "int \<Rightarrow> rat" where
  "powerUpChance lvl =
     (let baseChance = float_0_05;
          levelBonus = toFloat (toFloat (of_int lvl) * float_0_01)
      in min (toFloat (baseChance + levelBonus)) float_0_15)"

definition shouldGeneratePowerUp :: "int \<Rightarrow> int \<Rightarrow> bool" where
  "shouldGeneratePowerUp lvl bits = (nextFloat bits < powerUpChance lvl)"

definition randomPowerUp :: "int \<Rightarrow> PowerUpType" where
  "randomPowerUp draw = [BOMB, LINE_CLEAR, GHOST] ! nextInt 3 draw"

section \<open>GameEngine.kt\<close>

datatype GameState = NotStarted | Running | Paused | GameOver

record GameEngine =
  grid :: Grid
  currentTetrimino :: "Tetrimino option"
  nextTetrimino :: "Tetrimino option"
  gameState :: GameState
  score :: int
  multiplier :: int
  level :: int
  multiplierEndTime :: int
  ghostPosition :: "Position option"

definition newGameEngine :: GameEngine where
  "newGameEngine =
     \<lparr>grid = newGrid 10 20, currentTetrimino = None, nextTetrimino = None,
      gameState = NotStarted, score = 0, multiplier = 1, level = 1,
      multiplierEndTime = 0, ghostPosition = None\<rparr>"

definition multiplierDuration :: int where
  "multiplierDuration = 10000"

text \<open>
  What one command reads from outside the engine: the random draws of
  \<open>clearLines()\<close>, the two readings of \<open>System.currentTimeMillis()\<close> (in
  \<open>applyMultiplier\<close> and in \<open>checkMultiplierExpiration\<close>), and the draws of the two calls
  of \<open>generateRandomTetrimino()\<close> in \<open>spawnTetrimino()\<close> (the first is made only when no
  next piece is held).
\<close>

record PieceDraws =
  typePick :: int
  powerUpRoll :: int
  powerUpPick :: int

record Env =
  orbDraws :: OrbDraws
  nowApply :: int
  nowCheck :: int
  heldPieceDraws :: PieceDraws
  nextPieceDraws :: PieceDraws

definition generateRandomTetrimino :: "int \<Rightarrow> PieceDraws \<Rightarrow> Tetrimino" where
  "generateRandomTetrimino lvl d =
     (let types = [Type_I, Type_O, Type_T, Type_L, Type_J, Type_S, Type_Z];
          randomType = types ! nextInt (length types) (typePick d);
          pu = (if shouldGeneratePowerUp lvl (powerUpRoll d)
                then Some (randomPowerUp (powerUpPick d)) else None)
      in newTetrimino randomType pu)"

definition isValidMove :: "Grid \<Rightarrow> Tetrimino \<Rightarrow> bool" where
  "isValidMove g t =
     (if powerUp t = Some GHOST then
        list_all (\<lambda>p. posY p < height g \<and> 0 \<le> posX p \<and> posX p < width g) (getBlocks t)
      else
        list_all (\<lambda>p. posY p < height g \<and> 0 \<le> posX p \<and> posX p < width g \<and>
                       (posY p < 0 \<or> isEmpty g p))
          (getBlocks t))"

text \<open>
  Every bitmap has a filled cell in its second row, so every piece has a block one
  row below its position; and the height of a grid is an \<open>Int\<close>.
\<close>

lemma getBlocks_has_block:
  "\<exists>p \<in> set (getBlocks t). posY p = wrap32 (posY (position t) + 1)"
  by (cases t; cases "ttype t")
    (auto simp add: getBlocks_def shape_def rowBlocks_def)

lemma isValidMove_above_bottom:
  assumes "isValidMove g t"
  shows "wrap32 (posY (position t) + 1) < height g"
proof -
  obtain p where p: "p \<in> set (getBlocks t)" "posY p = wrap32 (posY (position t) + 1)"
    using getBlocks_has_block by blast
  have "posY p < height g"
    using assms p(1) by (auto simp: isValidMove_def list_all_iff split: if_splits)
  with p(2) show ?thesis by simp
qed

lemma height_le_max: "height g \<le> 2147483647"
  using sint_lt [of "gridHeight g"] by (simp add: height_def)

lemma wrap32_succ_add: "wrap32 (wrap32 (n + 1) + k) = wrap32 (n + (1 + k))"
  using wrap32_add_left [of "n + 1" k] by (simp add: add.assoc)

lemma moveDown_measure:
  assumes "isValidMove g (tetriminoMoveDown t)"
  shows "wrap32 (posY (position t) + 2) < height g"
    and "wrap32 (posY (position (tetriminoMoveDown t)) + 2) = wrap32 (posY (position t) + 2) + 1"
proof -
  have "wrap32 (posY (position (tetriminoMoveDown t)) + 1) < height g"
    using assms by (rule isValidMove_above_bottom)
  then show lt: "wrap32 (posY (position t) + 2) < height g"
    using wrap32_succ_add [of "posY (position t)" 1] by (simp add: tetriminoMoveDown_def)
  have "int32 (wrap32 (posY (position t) + 2) + 1)"
    using lt height_le_max [of g] int32_wrap32 [of "posY (position t) + 2"]
    by (simp add: int32_def)
  then have "wrap32 (wrap32 (posY (position t) + 2) + 1) = wrap32 (posY (position t) + 2) + 1"
    by (rule wrap32_id)
  moreover have "wrap32 (wrap32 (posY (position t) + 2) + 1) = wrap32 (posY (position t) + 3)"
    using wrap32_add_left [of "posY (position t) + 2" 1] by (simp add: add.commute)
  moreover have "wrap32 (posY (position (tetriminoMoveDown t)) + 2)
      = wrap32 (posY (position t) + 3)"
    using wrap32_succ_add [of "posY (position t)" 2]
    by (simp add: tetriminoMoveDown_def add.commute)
  ultimately show "wrap32 (posY (position (tetriminoMoveDown t)) + 2)
      = wrap32 (posY (position t) + 2) + 1"
    by simp
qed

text \<open>
  The descent loop of \<open>hardDrop()\<close> and \<open>updateGhostPosition()\<close>:
  \<open>while (isValidMove(t.moveDown())) t = t.moveDown()\<close>.
\<close>

function dropDown :: "Grid \<Rightarrow> Tetrimino \<Rightarrow> Tetrimino" where
  "dropDown g t =
     (if isValidMove g (tetriminoMoveDown t) then dropDown g (tetriminoMoveDown t) else t)"
  by pat_completeness auto
termination
proof (relation "measure (\<lambda>(g, t). nat (2147483647 - wrap32 (posY (position t) + 2)))")
  show "wf (measure (\<lambda>(g, t). nat (2147483647 - wrap32 (posY (position t) + 2))))"
    by simp
next
  fix g t
  assume v: "isValidMove g (tetriminoMoveDown t)"
  show "((g, tetriminoMoveDown t), (g, t))
      \<in> measure (\<lambda>(g, t). nat (2147483647 - wrap32 (posY (position t) + 2)))"
    using moveDown_measure [OF v] height_le_max [of g] by simp
qed

declare dropDown.simps [simp del]

definition updateGhostPosition :: "GameEngine \<Rightarrow> GameEngine" where
  "updateGhostPosition s =
     s\<lparr>ghostPosition :=
         (case currentTetrimino s of
            Some t \<Rightarrow> Some (position (dropDown (grid s) t))
          | None \<Rightarrow> None)\<rparr>"

definition spawnTetrimino :: "Env \<Rightarrow> GameEngine \<Rightarrow> GameEngine" where
  "spawnTetrimino env s =
     (let cur = (case nextTetrimino s of
                   Some t \<Rightarrow> t
                 | None \<Rightarrow> generateRandomTetrimino (level s) (heldPieceDraws env));
          s1 = s\<lparr>currentTetrimino := Some cur,
                 nextTetrimino :=
                   Some (generateRandomTetrimino (level s) (nextPieceDraws env))\<rparr>;
          s2 = updateGhostPosition s1
      in if \<not> canPlace (grid s2) cur then s2\<lparr>gameState := GameOver\<rparr> else s2)"

definition startGame :: "Env \<Rightarrow> GameEngine \<Rightarrow> GameEngine" where
  "startGame env s =
     (spawnTetrimino env
        (s\<lparr>grid := reset (grid s), score := 0, multiplier := 1, level := 1,
           multiplierEndTime := 0\<rparr>))
     \<lparr>gameState := Running\<rparr>"

definition moveLeft :: "GameEngine \<Rightarrow> GameEngine" where
  "moveLeft s =
     (case currentTetrimino s of
        None \<Rightarrow> s
      | Some t \<Rightarrow>
          (let movedTetrimino = tetriminoMoveLeft t
           in if isValidMove (grid s) movedTetrimino
              then updateGhostPosition (s\<lparr>currentTetrimino := Some movedTetrimino\<rparr>)
              else s))"

definition moveRight :: "GameEngine \<Rightarrow> GameEngine" where
  "moveRight s =
     (case currentTetrimino s of
        None \<Rightarrow> s
      | Some t \<Rightarrow>
          (let movedTetrimino = tetriminoMoveRight t
           in if isValidMove (grid s) movedTetrimino
              then updateGhostPosition (s\<lparr>currentTetrimino := Some movedTetrimino\<rparr>)
              else s))"

definition rotateCurrent :: "GameEngine \<Rightarrow> GameEngine" where
  "rotateCurrent s =
     (case currentTetrimino s of
        None \<Rightarrow> s
      | Some t \<Rightarrow>
          (let rotatedTetrimino = tetriminoRotate t
           in if isValidMove (grid s) rotatedTetrimino
              then updateGhostPosition (s\<lparr>currentTetrimino := Some rotatedTetrimino\<rparr>)
              else s))"

text \<open>
  \<open>blocks.map { it.x }.average().toInt()\<close>: the mean as a \<open>Double\<close>, truncated towards
  zero. The sum of at most a few grid coordinates and its quotient by the number of
  blocks are computed here exactly.
\<close>

definition averageToInt :: "int list \<Rightarrow> int" where
  "averageToInt vs =
     (let avg = (of_int (sum_list vs) / of_nat (length vs) :: rat)
      in if 0 \<le> avg then \<lfloor>avg\<rfloor> else \<lceil>avg\<rceil>)"

text \<open>
  The two loops \<open>for (y in (centerY - radius)..(centerY + radius))\<close> and
  \<open>for (x in (centerX - radius)..(centerX + radius))\<close> with \<open>radius = 1\<close>: the bounds
  are \<open>Int\<close> sums, and a range whose first bound is above its last is empty.
\<close>

definition blastPositions :: "int \<Rightarrow> int \<Rightarrow> Position list" where
  "blastPositions centerX centerY =
     concat (map (\<lambda>yy. map (\<lambda>xx. Position xx yy)
                        [wrap32 (centerX - 1)..wrap32 (centerX + 1)])
       [wrap32 (centerY - 1)..wrap32 (centerY + 1)])"

definition applyBombEffect :: "GameEngine \<Rightarrow> Tetrimino \<Rightarrow> GameEngine" where
  "applyBombEffect s t =
     (let blocks = getBlocks t in
      if blocks = [] then s
      else
        (let centerX = averageToInt (map posX blocks);
             centerY = averageToInt (map posY blocks);
             g = fold (\<lambda>p ga. if isInBounds ga p then clearCell ga p else ga)
                   (blastPositions centerX centerY) (grid s)
         in s\<lparr>grid := g, score := wrap32 (score s + wrap32 (500 * multiplier s))\<rparr>))"

text \<open>\<open>distinct()\<close> keeps the first occurrence of each element, in order.\<close>

definition distinctFirst :: "'a list \<Rightarrow> 'a list" where
  "distinctFirst vs = fold (\<lambda>v acc. if v \<in> set acc then acc else acc @ [v]) vs []"

definition clearRow :: "int \<Rightarrow> Grid option \<Rightarrow> Grid option" where
  "clearRow yy go =
     (case go of
        None \<Rightarrow> None
      | Some g \<Rightarrow>
          (if 0 \<le> yy \<and> yy < height g then
             (case clearLine g yy of
                None \<Rightarrow> None
              | Some g1 \<Rightarrow> shiftLinesDown g1 yy)
           else Some g))"

definition applyLineClearEffect :: "GameEngine \<Rightarrow> Tetrimino \<Rightarrow> GameEngine option" where
  "applyLineClearEffect s t =
     (let rows = distinctFirst (map posY (getBlocks t)) in
      case fold clearRow rows (Some (grid s)) of
        None \<Rightarrow> None
      | Some g \<Rightarrow>
          Some (s\<lparr>grid := g,
                  score := wrap32 (score s +
                             wrap32 (wrap32 (int (length rows) * 200) * multiplier s))\<rparr>))"

definition checkMultiplierExpiration :: "GameEngine \<Rightarrow> int \<Rightarrow> GameEngine" where
  "checkMultiplierExpiration s now =
     (if 0 < multiplierEndTime s \<and> multiplierEndTime s < now
      then s\<lparr>multiplier := 1, multiplierEndTime := 0\<rparr> else s)"

definition basePoints :: "int \<Rightarrow> int" where
  "basePoints linesCleared =
     (if linesCleared = 1 then 100
      else if linesCleared = 2 then 300
      else if linesCleared = 3 then 500
      else if linesCleared = 4 then 800
      else 0)"

definition updateScore :: "GameEngine \<Rightarrow> int \<Rightarrow> int \<Rightarrow> GameEngine" where
  "updateScore s linesCleared now =
     (let points = wrap32 (basePoints linesCleared * multiplier s)
      in checkMultiplierExpiration (s\<lparr>score := wrap32 (score s + points)\<rparr>) now)"

definition checkLevelUp :: "GameEngine \<Rightarrow> GameEngine" where
  "checkLevelUp s =
     (let newLevel = tdiv (score s) 2000 + 1
      in if level s < newLevel then s\<lparr>level := newLevel\<rparr> else s)"

definition applyMultiplier :: "GameEngine \<Rightarrow> int \<Rightarrow> int \<Rightarrow> GameEngine" where
  "applyMultiplier s orbMult now =
     s\<lparr>multiplier := wrap32 (multiplier s * orbMult),
       multiplierEndTime := now + multiplierDuration\<rparr>"

definition lockEffect :: "GameEngine \<Rightarrow> Tetrimino \<Rightarrow> GameEngine option" where
  "lockEffect s t =
     (case powerUp t of
        Some BOMB \<Rightarrow> Some (applyBombEffect s t)
      | Some LINE_CLEAR \<Rightarrow> applyLineClearEffect s t
      | _ \<Rightarrow> Some (s\<lparr>grid := place (grid s) t\<rparr>))"

definition lockTetrimino :: "Env \<Rightarrow> GameEngine \<Rightarrow> GameEngine option" where
  "lockTetrimino env s =
     (case currentTetrimino s of
        None \<Rightarrow> Some s
      | Some t \<Rightarrow>
          (case lockEffect s t of
             None \<Rightarrow> None
           | Some s1 \<Rightarrow>
               (case clearLines (grid s1) (orbDraws env) of
                  None \<Rightarrow> None
                | Some (g, linesCleared, orbMult) \<Rightarrow>
                    (let s2 = s1\<lparr>grid := g\<rparr>;
                         s3 = (if 0 < linesCleared \<and> 1 < orbMult
                               then applyMultiplier s2 orbMult (nowApply env) else s2);
                         s4 = updateScore s3 linesCleared (nowCheck env);
                         s5 = checkLevelUp s4
                     in Some (spawnTetrimino env s5)))))"

definition moveDown :: "Env \<Rightarrow> GameEngine \<Rightarrow> (GameEngine \<times> bool) option" where
  "moveDown env s =
     (case currentTetrimino s of
        None \<Rightarrow> Some (s, False)
      | Some t \<Rightarrow>
          (let movedTetrimino = tetriminoMoveDown t
           in if isValidMove (grid s) movedTetrimino
              then Some (s\<lparr>currentTetrimino := Some movedTetrimino\<rparr>, True)
              else map_option (\<lambda>s'. (s', False)) (lockTetrimino env s)))"

definition hardDrop :: "Env \<Rightarrow> GameEngine \<Rightarrow> GameEngine option" where
  "hardDrop env s =
     (case currentTetrimino s of
        None \<Rightarrow> Some s
      | Some t \<Rightarrow> lockTetrimino env (s\<lparr>currentTetrimino := Some (dropDown (grid s) t)\<rparr>))"

definition pauseGame :: "GameEngine \<Rightarrow> GameEngine" where
  "pauseGame s = (if gameState s = Running then s\<lparr>gameState := Paused\<rparr> else s)"

definition resumeGame :: "GameEngine \<Rightarrow> GameEngine" where
  "resumeGame s = (if gameState s = Paused then s\<lparr>gameState := Running\<rparr> else s)"

text \<open>The public commands of the engine, and the states a sequence of them reaches.\<close>

datatype Command =
  StartGame | MoveLeft | MoveRight | MoveDown | Rotate | HardDrop | PauseGame | ResumeGame

fun step :: "Env \<Rightarrow> Command \<Rightarrow> GameEngine \<Rightarrow> GameEngine option" where
  "step env StartGame s = Some (startGame env s)"
| "step env MoveLeft s = Some (moveLeft s)"
| "step env MoveRight s = Some (moveRight s)"
| "step env MoveDown s = map_option fst (moveDown env s)"
| "step env Rotate s = Some (rotateCurrent s)"
| "step env HardDrop s = hardDrop env s"
| "step env PauseGame s = Some (pauseGame s)"
| "step env ResumeGame s = Some (resumeGame s)"

fun run :: "(Command \<times> Env) list \<Rightarrow> GameEngine \<Rightarrow> GameEngine option" where
  "run [] s = Some s"
| "run ((c, env) # rest) s =
     (case step env c s of None \<Rightarrow> None | Some s' \<Rightarrow> run rest s')"

inductive reachable :: "GameEngine \<Rightarrow> bool" where
  reachable_new: "reachable newGameEngine"
| reachable_step: "reachable s \<Longrightarrow> step env c s = Some s' \<Longrightarrow> reachable s'"

section \<open>Quantities used in the statements\<close>

text \<open>The height of a piece's bitmap, and the number of iterations of the descent
  loop (the loop of \<open>dropDown\<close>, counting).\<close>

definition shapeHeight :: "Tetrimino \<Rightarrow> int" where
  "shapeHeight t = int (length (shape t))"

function descentSteps :: "Grid \<Rightarrow> Tetrimino \<Rightarrow> nat" where
  "descentSteps g t =
     (if isValidMove g (tetriminoMoveDown t) then Suc (descentSteps g (tetriminoMoveDown t))
      else 0)"
  by pat_completeness auto
termination
proof (relation "measure (\<lambda>(g, t). nat (2147483647 - wrap32 (posY (position t) + 2)))")
  show "wf (measure (\<lambda>(g, t). nat (2147483647 - wrap32 (posY (position t) + 2))))"
    by simp
next
  fix g t
  assume v: "isValidMove g (tetriminoMoveDown t)"
  show "((g, tetriminoMoveDown t), (g, t))
      \<in> measure (\<lambda>(g, t). nat (2147483647 - wrap32 (posY (position t) + 2)))"
    using moveDown_measure [OF v] height_le_max [of g] by simp
qed

declare descentSteps.simps [simp del]

text \<open>
  What holds of the pieces in every state the engine reaches: the grid is 20 rows high,
  the current piece is at a row from 0 to 18, and the next piece waits at row 0.
\<close>

definition engineInv :: "GameEngine \<Rightarrow> bool" where
  "engineInv s =
     (gridHeight (grid s) = 20 \<and>
      (\<forall>t. currentTetrimino s = Some t \<longrightarrow> 0 \<le> posY (position t) \<and> posY (position t) \<le> 18) \<and>
      (\<forall>t. nextTetrimino s = Some t \<longrightarrow> posY (position t) = 0))"

text \<open>Draws and clock readings under which no orb and no power-up is generated.\<close>

definition quietEnv :: Env where
  "quietEnv =
     \<lparr>orbDraws = \<lparr>spawnRoll = 16777215, halfRoll = 0, positionPick = 0, orbTypeRoll = 0\<rparr>,
      nowApply = 1000, nowCheck = 1000,
      heldPieceDraws = \<lparr>typePick = 0, powerUpRoll = 16777215, powerUpPick = 0\<rparr>,
      nextPieceDraws = \<lparr>typePick = 0, powerUpRoll = 16777215, powerUpPick = 0\<rparr>\<rparr>"

text \<open>Engine states used as concrete inputs: a horizontal \<open>I\<close> piece against the left
  wall, a vertical \<open>I\<close> piece against the right wall, and an \<open>I\<close> piece in mid-field,
  each over the empty 10 by 20 grid.\<close>

definition atLeftWall :: GameEngine where
  "atLeftWall = newGameEngine\<lparr>currentTetrimino := Some (Tetrimino Type_I (Position 0 0) 0 None),
     gameState := Running\<rparr>"

definition atRightWall :: GameEngine where
  "atRightWall = newGameEngine\<lparr>currentTetrimino := Some (Tetrimino Type_I (Position 7 0) 1 None),
     gameState := Running\<rparr>"

definition midField :: GameEngine where
  "midField = newGameEngine\<lparr>currentTetrimino := Some (Tetrimino Type_I (Position 4 0) 0 None),
     gameState := Running\<rparr>"

text \<open>
  A row is complete when each of its cells holds a colour index: the test of
  \<open>isLineComplete\<close> on the row. \<open>clearedCells w k cs\<close> is the matrix \<open>cs\<close> with the
  complete rows among its first \<open>k\<close> rows taken out and as many empty rows of width
  \<open>w\<close> put on top.
\<close>

definition completeRow :: "int list \<Rightarrow> bool" where
  "completeRow row = list_all (\<lambda>v. 0 < v) row"

definition clearedCells :: "nat \<Rightarrow> nat \<Rightarrow> int list list \<Rightarrow> int list list" where
  "clearedCells w k cs =
     replicate (length (filter completeRow (take k cs))) (replicate w 0)
       @ filter (\<lambda>row. \<not> completeRow row) (take k cs) @ drop k cs"

text \<open>
  The states of a \<open>Grid\<close> object: a grid constructed with a positive width and a
  positive height (the engine's is \<open>Grid(10, 20)\<close>), followed by any calls of its public
  methods that change it and return.
\<close>

inductive reachableGrid :: "Grid \<Rightarrow> bool" where
  rg_new: "0 < sint w \<Longrightarrow> 0 < sint h \<Longrightarrow> reachableGrid (newGrid w h)"
| rg_place: "reachableGrid g \<Longrightarrow> reachableGrid (place g t)"
| rg_clearLines: "reachableGrid g \<Longrightarrow> clearLines g d = Some (g', n, m) \<Longrightarrow> reachableGrid g'"
| rg_clearLine: "reachableGrid g \<Longrightarrow> clearLine g yy = Some g' \<Longrightarrow> reachableGrid g'"
| rg_clearCell: "reachableGrid g \<Longrightarrow> reachableGrid (clearCell g p)"
| rg_shiftLinesDown: "reachableGrid g \<Longrightarrow> shiftLinesDown g yy = Some g' \<Longrightarrow> reachableGrid g'"
| rg_reset: "reachableGrid g \<Longrightarrow> reachableGrid (reset g)"

text \<open>
  A grid of width \<open>0\<close> and positive height: its rows are empty arrays, and
  \<open>isLineComplete\<close> holds of each of them.
\<close>

definition emptyRows :: "Grid \<Rightarrow> bool" where
  "emptyRows g =
     (width g = 0 \<and> 0 < height g \<and> length (cells g) = nat (height g) \<and>
      list_all (\<lambda>row. row = []) (cells g))"

text \<open>
  A grid whose bottom row is complete: two \<open>I\<close> pieces and an \<open>O\<close> piece placed side
  by side on the empty 10 by 20 grid.
\<close>

definition oneFullRow :: Grid where
  "oneFullRow =
     place (place (place (newGrid 10 20) (Tetrimino Type_I (Position 0 18) 0 None))
              (Tetrimino Type_I (Position 4 18) 0 None))
       (Tetrimino Type_O (Position 8 18) 0 None)"

text \<open>
  The centre of a bomb, \<open>(centerX, centerY)\<close>: the truncated means of the columns and
  of the rows of the piece's blocks; and the 3 by 3 square of cells around a centre.
\<close>

definition centroid :: "Tetrimino \<Rightarrow> Position" where
  "centroid t =
     Position (averageToInt (map posX (getBlocks t))) (averageToInt (map posY (getBlocks t)))"

definition inBlast :: "Position \<Rightarrow> Position \<Rightarrow> bool" where
  "inBlast c p =
     (posX c - 1 \<le> posX p \<and> posX p \<le> posX c + 1 \<and>
      posY c - 1 \<le> posY p \<and> posY p \<le> posY c + 1)"

text \<open>An \<open>O\<close> piece with the BOMB power-up whose blocks are the cells \<open>(5..6, 10..11)\<close>.\<close>

definition bombO :: Tetrimino where
  "bombO = Tetrimino Type_O (Position 5 10) 0 (Some BOMB)"


lemma shapeHeight_nonneg: "0 \<le> shapeHeight t"
  by (simp add: shapeHeight_def)

lemma dropDown_exit: "\<not> isValidMove g (tetriminoMoveDown (dropDown g t))"
proof (induction g t rule: dropDown.induct)
  case (1 g t)
  then show ?case by (subst dropDown.simps) simp
qed

lemma dropDown_iterate: "dropDown g t = (tetriminoMoveDown ^^ descentSteps g t) t"
proof (induction g t rule: dropDown.induct)
  case (1 g t)
  show ?case
  proof (cases "isValidMove g (tetriminoMoveDown t)")
    case True
    with 1 show ?thesis
      by (subst dropDown.simps, subst descentSteps.simps) (simp add: funpow_swap1)
  next
    case False
    then show ?thesis
      by (subst dropDown.simps, subst descentSteps.simps) simp
  qed
qed

section \<open>The descent loops of hardDrop and updateGhostPosition\<close>

lemma descentSteps_measure:
  "int (descentSteps g t) \<le> 2147483647 - wrap32 (posY (position t) + 2)"
proof (induction g t rule: descentSteps.induct)
  case (1 g t)
  show ?case
  proof (cases "isValidMove g (tetriminoMoveDown t)")
    case True
    have "int (descentSteps g (tetriminoMoveDown t))
        \<le> 2147483647 - wrap32 (posY (position (tetriminoMoveDown t)) + 2)"
      using 1 True by simp
    then show ?thesis
      using True moveDown_measure(2) [OF True] by (subst descentSteps.simps) simp
  next
    case False
    have "wrap32 (posY (position t) + 2) \<le> 2147483647"
      using int32_wrap32 [of "posY (position t) + 2"] by (simp add: int32_def)
    then show ?thesis
      using False by (subst descentSteps.simps) simp
  qed
qed

lemma descentSteps_le:
  assumes "- 2147483648 \<le> posY (position t)" "posY (position t) \<le> 2147483645"
  shows "int (descentSteps g t) \<le> max 0 (height g - 2 - posY (position t))"
  using assms
proof (induction g t rule: descentSteps.induct)
  case (1 g t)
  show ?case
  proof (cases "isValidMove g (tetriminoMoveDown t)")
    case True
    have w2: "wrap32 (posY (position t) + 2) = posY (position t) + 2"
      using "1.prems" by (intro wrap32_id) (simp add: int32_def)
    have w1: "wrap32 (posY (position t) + 1) = posY (position t) + 1"
      using "1.prems" by (intro wrap32_id) (simp add: int32_def)
    have lt: "posY (position t) + 2 < height g"
      using moveDown_measure(1) [OF True] w2 by simp
    have y1: "posY (position (tetriminoMoveDown t)) = posY (position t) + 1"
      by (simp add: tetriminoMoveDown_def w1)
    have "int (descentSteps g (tetriminoMoveDown t))
        \<le> max 0 (height g - 2 - posY (position (tetriminoMoveDown t)))"
      using "1.IH" [OF True] "1.prems" lt height_le_max [of g] by (simp add: y1)
    then show ?thesis
      using True lt by (subst descentSteps.simps) (simp add: y1)
  next
    case False
    then show ?thesis
      by (subst descentSteps.simps) simp
  qed
qed

lemma iterate_posY:
  assumes "- 2147483648 \<le> posY (position u)" "posY (position u) + int n \<le> 2147483647"
  shows "posY (position ((tetriminoMoveDown ^^ n) u)) = posY (position u) + int n"
  using assms
proof (induction n)
  case 0
  then show ?case by simp
next
  case (Suc n)
  have "wrap32 (posY (position u) + int n + 1) = posY (position u) + int n + 1"
    using Suc.prems by (intro wrap32_id) (simp add: int32_def)
  then show ?case
    using Suc by (simp add: tetriminoMoveDown_def)
qed


lemma gridHeight_fold:
  assumes "\<And>p ga. gridHeight (f p ga) = gridHeight ga"
  shows "gridHeight (fold f ps g) = gridHeight g"
  using assms by (induction ps arbitrary: g) simp_all

lemma gridHeight_setCell: "gridHeight (setCell g p v) = gridHeight g"
  by (simp add: setCell_def)

lemma gridHeight_place: "gridHeight (place g t) = gridHeight g"
  by (simp add: place_def getColorIndex_def gridHeight_fold gridHeight_setCell
      split: option.splits prod.splits)

lemma gridHeight_clearCell: "gridHeight (clearCell g p) = gridHeight g"
  by (simp add: clearCell_def gridHeight_setCell)

lemma gridHeight_applyBombEffect: "gridHeight (grid (applyBombEffect s t)) = gridHeight (grid s)"
  by (simp add: applyBombEffect_def Let_def gridHeight_fold gridHeight_clearCell)

lemma gridHeight_clearLine: "clearLine g yy = Some g' \<Longrightarrow> gridHeight g' = gridHeight g"
  by (auto simp: clearLine_def split: if_splits)

lemma gridHeight_shiftLinesDown:
  "shiftLinesDown g yy = Some g' \<Longrightarrow> gridHeight g' = gridHeight g"
  by (auto simp: shiftLinesDown_def shiftOrbsDown_def split: if_splits option.splits
      dest!: gridHeight_clearLine)

lemma fold_clearRow_None: "fold clearRow rows None = None"
  by (induction rows) (simp_all add: clearRow_def)

lemma gridHeight_fold_clearRow:
  "fold clearRow rows (Some g) = Some g' \<Longrightarrow> gridHeight g' = gridHeight g"
proof (induction rows arbitrary: g)
  case Nil
  then show ?case by simp
next
  case (Cons r rows)
  show ?case
  proof (cases "clearRow r (Some g)")
    case None
    with Cons.prems show ?thesis by (simp add: fold_clearRow_None)
  next
    case (Some g1)
    then have "gridHeight g1 = gridHeight g"
      by (auto simp: clearRow_def split: if_splits option.splits
          dest!: gridHeight_clearLine gridHeight_shiftLinesDown)
    moreover have "gridHeight g' = gridHeight g1"
      using Cons.prems Some by (intro Cons.IH) simp
    ultimately show ?thesis by simp
  qed
qed

lemma gridHeight_applyLineClearEffect:
  "applyLineClearEffect s t = Some s1 \<Longrightarrow> gridHeight (grid s1) = gridHeight (grid s)"
  by (auto simp: applyLineClearEffect_def Let_def split: option.splits
      dest!: gridHeight_fold_clearRow)

lemma gridHeight_lockEffect:
  "lockEffect s t = Some s1 \<Longrightarrow> gridHeight (grid s1) = gridHeight (grid s)"
  by (auto simp: lockEffect_def gridHeight_place gridHeight_applyBombEffect
      split: option.splits PowerUpType.splits dest!: gridHeight_applyLineClearEffect)

lemma gridHeight_clearLines_loop:
  assumes "clearLines_loop g yy n m r = Some res"
  shows "gridHeight (fst res) = gridHeight g"
proof (rule clearLines_loop.raw_induct
    [where P = "\<lambda>g yy n m r res. gridHeight (fst res) = gridHeight g", OF _ assms])
  fix loop g yy n m r res
  assume IH: "\<And>g yy n m r res. loop g yy n m r = Some res
      \<Longrightarrow> gridHeight (fst res) = gridHeight g"
    and body: "(if 0 \<le> yy then
        (if isLineComplete g yy then
           (let hit = filter (\<lambda>orb. posY (orbPosition orb) = yy) (orbs g) in
            case clearLine g yy of
              None \<Rightarrow> None
            | Some g1 \<Rightarrow>
                (case shiftLinesDown g1 yy of
                   None \<Rightarrow> None
                 | Some g2 \<Rightarrow>
                     loop g2 yy (n + 1)
                       (fold (\<lambda>orb m. wrap32 (m * orbMultiplier orb)) hit m)
                       (r @ hit)))
         else loop g (yy - 1) n m r)
      else Some (g, n, m, r)) = Some res"
  show "gridHeight (fst res) = gridHeight g"
    using body
    by (auto simp: Let_def split: if_splits option.splits
        dest!: gridHeight_clearLine gridHeight_shiftLinesDown IH)
qed

lemma gridHeight_trySpawnOrb: "gridHeight (trySpawnOrb g d) = gridHeight g"
  by (simp add: trySpawnOrb_def Let_def split: option.splits)

lemma gridHeight_clearLines:
  "clearLines g d = Some (g', n, m) \<Longrightarrow> gridHeight g' = gridHeight g"
  by (auto simp: clearLines_def Let_def gridHeight_trySpawnOrb
      split: option.splits if_splits dest!: gridHeight_clearLines_loop)


lemma gridHeight_reset: "gridHeight (reset g) = gridHeight g"
  by (simp add: reset_def)

lemma posY_generateRandomTetrimino: "posY (position (generateRandomTetrimino lvl d)) = 0"
  by (simp add: generateRandomTetrimino_def newTetrimino_def Let_def)

lemma engineInv_spawnTetrimino:
  assumes "gridHeight (grid s) = 20" "\<forall>t. nextTetrimino s = Some t \<longrightarrow> posY (position t) = 0"
  shows "engineInv (spawnTetrimino env s)"
  using assms
  by (auto simp: engineInv_def spawnTetrimino_def updateGhostPosition_def Let_def
      posY_generateRandomTetrimino split: option.splits)

lemma engineInv_lockTetrimino:
  assumes "lockTetrimino env s = Some s'" "engineInv s"
  shows "engineInv s'"
proof (cases "currentTetrimino s")
  case None
  with assms show ?thesis by (simp add: lockTetrimino_def)
next
  case (Some t)
  from assms(1) Some obtain s1 g n m where
    e: "lockEffect s t = Some s1" and c: "clearLines (grid s1) (orbDraws env) = Some (g, n, m)"
    and r: "s' = spawnTetrimino env (checkLevelUp (updateScore
        (if 0 < n \<and> 1 < m then applyMultiplier (s1\<lparr>grid := g\<rparr>) m (nowApply env)
         else s1\<lparr>grid := g\<rparr>) n (nowCheck env)))"
    by (auto simp: lockTetrimino_def Let_def split: option.splits)
  have h: "gridHeight g = 20"
    using gridHeight_clearLines [OF c] gridHeight_lockEffect [OF e] assms(2)
    by (simp add: engineInv_def)
  have nx: "nextTetrimino s1 = nextTetrimino s"
    using e by (auto simp: lockEffect_def applyBombEffect_def applyLineClearEffect_def Let_def
        split: option.splits PowerUpType.splits if_splits)
  show ?thesis
    unfolding r
    using h nx assms(2)
    by (intro engineInv_spawnTetrimino)
      (auto simp: engineInv_def checkLevelUp_def updateScore_def checkMultiplierExpiration_def
        applyMultiplier_def Let_def)
qed

lemma engineInv_step:
  assumes "engineInv s" "step env c s = Some s'"
  shows "engineInv s'"
proof (cases c)
  case StartGame
  have "engineInv (spawnTetrimino env (s\<lparr>grid := reset (grid s), score := 0, multiplier := 1,
      level := 1, multiplierEndTime := 0\<rparr>))"
    using assms(1) by (intro engineInv_spawnTetrimino) (simp_all add: engineInv_def gridHeight_reset)
  then show ?thesis
    using assms(2) StartGame by (auto simp: startGame_def engineInv_def)
next
  case MoveLeft
  with assms show ?thesis
    by (auto simp: moveLeft_def engineInv_def updateGhostPosition_def tetriminoMoveLeft_def
        Let_def split: option.splits if_splits)
next
  case MoveRight
  with assms show ?thesis
    by (auto simp: moveRight_def engineInv_def updateGhostPosition_def tetriminoMoveRight_def
        Let_def split: option.splits if_splits)
next
  case Rotate
  with assms show ?thesis
    by (auto simp: rotateCurrent_def engineInv_def updateGhostPosition_def tetriminoRotate_def
        Let_def split: option.splits if_splits)
next
  case PauseGame
  with assms show ?thesis by (auto simp: pauseGame_def engineInv_def split: if_splits)
next
  case ResumeGame
  with assms show ?thesis by (auto simp: resumeGame_def engineInv_def split: if_splits)
next
  case HardDrop
  show ?thesis
  proof (cases "currentTetrimino s")
    case None
    with assms HardDrop show ?thesis by (simp add: hardDrop_def)
  next
    case (Some t)
    have y: "0 \<le> posY (position t)" "posY (position t) \<le> 18"
      using assms(1) Some by (auto simp: engineInv_def)
    have n: "int (descentSteps (grid s) t) \<le> max 0 (height (grid s) - 2 - posY (position t))"
      using y by (intro descentSteps_le) simp_all
    have h: "height (grid s) = 20"
      using assms(1) by (simp add: engineInv_def height_def)
    have "posY (position (dropDown (grid s) t)) = posY (position t) + int (descentSteps (grid s) t)"
      unfolding dropDown_iterate using y n h by (intro iterate_posY) simp_all
    then have "engineInv (s\<lparr>currentTetrimino := Some (dropDown (grid s) t)\<rparr>)"
      using assms(1) y n h by (auto simp: engineInv_def)
    then show ?thesis
      using assms(2) HardDrop Some by (auto simp: hardDrop_def intro: engineInv_lockTetrimino)
  qed
next
  case MoveDown
  show ?thesis
  proof (cases "currentTetrimino s")
    case None
    with assms MoveDown show ?thesis by (simp add: moveDown_def)
  next
    case (Some t)
    have y: "0 \<le> posY (position t)" "posY (position t) \<le> 18"
      using assms(1) Some by (auto simp: engineInv_def)
    have h: "height (grid s) = 20"
      using assms(1) by (simp add: engineInv_def height_def)
    show ?thesis
    proof (cases "isValidMove (grid s) (tetriminoMoveDown t)")
      case True
      have w2: "wrap32 (posY (position t) + 2) = posY (position t) + 2"
        using y by (intro wrap32_id) (simp add: int32_def)
      have w1: "wrap32 (posY (position t) + 1) = posY (position t) + 1"
        using y by (intro wrap32_id) (simp add: int32_def)
      have "posY (position t) + 2 < 20"
        using moveDown_measure(1) [OF True] w2 h by simp
      then show ?thesis
        using assms MoveDown Some True y
        by (auto simp: moveDown_def engineInv_def Let_def tetriminoMoveDown_def w1)
    next
      case False
      then show ?thesis
        using assms MoveDown Some
        by (auto simp: moveDown_def Let_def intro: engineInv_lockTetrimino)
    qed
  qed
qed

lemma engineInv_new: "engineInv newGameEngine"
  by (simp add: engineInv_def newGameEngine_def newGrid_def)

lemma reachable_engineInv: "reachable s \<Longrightarrow> engineInv s"
  by (induction rule: reachable.induct) (auto intro: engineInv_new engineInv_step)


lemma currentTetrimino_spawnTetrimino:
  "currentTetrimino (spawnTetrimino env s) =
     Some (case nextTetrimino s of
             Some t \<Rightarrow> t
           | None \<Rightarrow> generateRandomTetrimino (level s) (heldPieceDraws env))"
  by (simp add: spawnTetrimino_def updateGhostPosition_def Let_def)

text \<open>
  Claim C10. The descent loop shared by \<open>hardDrop()\<close> and \<open>updateGhostPosition()\<close>
  terminates for every tetrimino and every grid, GHOST pieces included, with the
  wrap-around of \<open>Int\<close> taken into account: \<open>dropDown\<close> and \<open>descentSteps\<close> are total
  functions, by a termination proof from the facts of the claim (every bitmap has a
  filled cell, \<open>moveDown\<close> raises \<open>y\<close> by one, \<open>isValidMove\<close> rejects a block at
  \<open>y \<ge> height\<close>, and the height is an \<open>Int\<close>). The loop stops at a piece whose next
  step down is invalid, after \<open>descentSteps\<close> steps down. In every state the engine
  reaches, the loop run on the current tetrimino performs at most
  \<open>height + shape-height\<close> iterations, and the piece ends that many rows lower. For a
  piece anywhere else the number of iterations is at most \<open>height - 2 - y\<close> while
  \<open>y + 2\<close> does not wrap, and at most \<open>2^31 - 1 - (y + 2)\<close> (wrapped) in general.
\<close>

theorem descent_terminates:
  "\<not> isValidMove g (tetriminoMoveDown (dropDown g t)) \<and>
   dropDown g t = (tetriminoMoveDown ^^ descentSteps g t) t \<and>
   int (descentSteps g t) \<le> 2147483647 - wrap32 (posY (position t) + 2) \<and>
   (- 2147483648 \<le> posY (position t) \<and> posY (position t) \<le> 2147483645 \<longrightarrow>
      int (descentSteps g t) \<le> max 0 (height g - 2 - posY (position t))) \<and>
   (reachable s \<and> currentTetrimino s = Some t \<longrightarrow>
      int (descentSteps (grid s) t) \<le> height (grid s) + shapeHeight t \<and>
      posY (position (dropDown (grid s) t))
        = posY (position t) + int (descentSteps (grid s) t))"
proof -
  have engine: "int (descentSteps (grid s) t) \<le> height (grid s) + shapeHeight t \<and>
      posY (position (dropDown (grid s) t))
        = posY (position t) + int (descentSteps (grid s) t)"
    if r: "reachable s" and c: "currentTetrimino s = Some t"
  proof -
    have inv: "engineInv s"
      using r by (rule reachable_engineInv)
    have y: "0 \<le> posY (position t)" "posY (position t) \<le> 18"
      using inv c by (auto simp: engineInv_def)
    have h: "height (grid s) = 20"
      using inv by (simp add: engineInv_def height_def)
    have n: "int (descentSteps (grid s) t) \<le> max 0 (height (grid s) - 2 - posY (position t))"
      using y by (intro descentSteps_le) simp_all
    have p: "posY (position (dropDown (grid s) t))
        = posY (position t) + int (descentSteps (grid s) t)"
      unfolding dropDown_iterate using y n h by (intro iterate_posY) simp_all
    show ?thesis
      using n p y h shapeHeight_nonneg [of t] by simp
  qed
  show ?thesis
    using dropDown_exit [of g t] dropDown_iterate [of g t] descentSteps_measure [of g t]
      descentSteps_le [of t g] engine
    by blast
qed

theorem descent_terminates_witness:
  "reachable (startGame quietEnv newGameEngine) \<and>
   currentTetrimino (startGame quietEnv newGameEngine)
     = Some (generateRandomTetrimino 1 (heldPieceDraws quietEnv)) \<and>
   int (descentSteps (grid (startGame quietEnv newGameEngine))
          (generateRandomTetrimino 1 (heldPieceDraws quietEnv)))
     \<le> height (grid (startGame quietEnv newGameEngine))
        + shapeHeight (generateRandomTetrimino 1 (heldPieceDraws quietEnv))"
proof -
  have r: "reachable (startGame quietEnv newGameEngine)"
    using reachable_step [OF reachable_new, of quietEnv StartGame] by simp
  have c: "currentTetrimino (startGame quietEnv newGameEngine)
      = Some (generateRandomTetrimino 1 (heldPieceDraws quietEnv))"
    by (simp add: startGame_def currentTetrimino_spawnTetrimino newGameEngine_def)
  show ?thesis
    using descent_terminates [where s = "startGame quietEnv newGameEngine"
        and t = "generateRandomTetrimino 1 (heldPieceDraws quietEnv)"] r c
    by blast
qed

section \<open>Rejected commands\<close>

lemma getBlocks_moveLeft:
  "getBlocks (tetriminoMoveLeft t)
     = map (\<lambda>p. Position (wrap32 (posX p - 1)) (posY p)) (getBlocks t)"
proof -
  have "wrap32 (a - 1 + b) = wrap32 (wrap32 (a + b) - 1)" for a b
    using wrap32_add_left [of "a + b" "- 1"] by (simp add: algebra_simps)
  then show ?thesis
    by (simp add: getBlocks_def tetriminoMoveLeft_def shape_def rowBlocks_def map_concat
        comp_def case_prod_unfold)
qed

lemma moveLeft_at_wall_invalid:
  assumes "p \<in> set (getBlocks t)" "posX p = 0"
  shows "\<not> isValidMove g (tetriminoMoveLeft t)"
proof -
  have "Position (wrap32 (posX p - 1)) (posY p) \<in> set (getBlocks (tetriminoMoveLeft t))"
    using assms(1) by (force simp: getBlocks_moveLeft)
  then have "Position (- 1) (posY p) \<in> set (getBlocks (tetriminoMoveLeft t))"
    using assms(2) by (simp add: wrap32_def)
  then have neg: "\<exists>q \<in> set (getBlocks (tetriminoMoveLeft t)). posX q < 0"
    by force
  show ?thesis
  proof
    assume "isValidMove g (tetriminoMoveLeft t)"
    then have "\<forall>q \<in> set (getBlocks (tetriminoMoveLeft t)). 0 \<le> posX q"
      by (auto simp: isValidMove_def list_all_iff split: if_splits)
    with neg show False by force
  qed
qed

text \<open>
  Claim C7. A rejected command is a no-op on the whole engine state. The commands the
  engine rejects are \<open>moveLeft()\<close>, \<open>moveRight()\<close> and \<open>rotate()\<close> (a \<open>moveDown()\<close> that
  cannot move is not rejected: it locks the piece): when the transformed current piece
  fails \<open>isValidMove\<close>, the state after the call is the state before it, in every field
  (current and next tetrimino, grid cells and orbs, ghost position, score, multiplier,
  level, game state). In particular \<open>moveLeft()\<close> is a no-op when a block of the current
  piece is at column \<open>0\<close>.
\<close>

theorem rejected_command_is_noop:
  "(currentTetrimino s = Some t \<and> \<not> isValidMove (grid s) (tetriminoMoveLeft t)
      \<longrightarrow> moveLeft s = s \<and> step env MoveLeft s = Some s) \<and>
   (currentTetrimino s = Some t \<and> \<not> isValidMove (grid s) (tetriminoMoveRight t)
      \<longrightarrow> moveRight s = s \<and> step env MoveRight s = Some s) \<and>
   (currentTetrimino s = Some t \<and> \<not> isValidMove (grid s) (tetriminoRotate t)
      \<longrightarrow> rotateCurrent s = s \<and> step env Rotate s = Some s) \<and>
   (currentTetrimino s = Some t \<and> (\<exists>p \<in> set (getBlocks t). posX p = 0)
      \<longrightarrow> moveLeft s = s)"
  using moveLeft_at_wall_invalid [of _ t "grid s"]
  by (auto simp: moveLeft_def moveRight_def rotateCurrent_def)

theorem rejected_command_is_noop_witness:
  "currentTetrimino atLeftWall = Some (Tetrimino Type_I (Position 0 0) 0 None) \<and>
   \<not> isValidMove (grid atLeftWall) (tetriminoMoveLeft (Tetrimino Type_I (Position 0 0) 0 None)) \<and>
   moveLeft atLeftWall = atLeftWall \<and>
   currentTetrimino atRightWall = Some (Tetrimino Type_I (Position 7 0) 1 None) \<and>
   isValidMove (grid atRightWall) (Tetrimino Type_I (Position 7 0) 1 None) \<and>
   \<not> isValidMove (grid atRightWall) (tetriminoRotate (Tetrimino Type_I (Position 7 0) 1 None)) \<and>
   rotateCurrent atRightWall = atRightWall"
proof -
  have l: "currentTetrimino atLeftWall = Some (Tetrimino Type_I (Position 0 0) 0 None) \<and>
      \<not> isValidMove (grid atLeftWall)
          (tetriminoMoveLeft (Tetrimino Type_I (Position 0 0) 0 None))"
    by (simp add: atLeftWall_def newGameEngine_def newGrid_def isValidMove_def
        tetriminoMoveLeft_def getBlocks_def shape_def rowBlocks_def trem_def tdiv_def wrap32_def width_def height_def)
  have r: "currentTetrimino atRightWall = Some (Tetrimino Type_I (Position 7 0) 1 None) \<and>
      \<not> isValidMove (grid atRightWall)
          (tetriminoRotate (Tetrimino Type_I (Position 7 0) 1 None))"
    by (simp add: atRightWall_def newGameEngine_def newGrid_def isValidMove_def
        tetriminoRotate_def getBlocks_def shape_def rowBlocks_def trem_def tdiv_def wrap32_def width_def height_def)
  have v: "isValidMove (grid atRightWall) (Tetrimino Type_I (Position 7 0) 1 None)"
    by (simp add: atRightWall_def newGameEngine_def newGrid_def isValidMove_def
        getBlocks_def shape_def rowBlocks_def trem_def tdiv_def wrap32_def width_def height_def isEmpty_def isInBounds_def
        cellAt_def)
  have "moveLeft atLeftWall = atLeftWall"
    using rejected_command_is_noop [of atLeftWall "Tetrimino Type_I (Position 0 0) 0 None"] l
    by blast
  moreover have "rotateCurrent atRightWall = atRightWall"
    using rejected_command_is_noop [of atRightWall "Tetrimino Type_I (Position 7 0) 1 None"] r
    by blast
  ultimately show ?thesis
    using l r v by blast
qed

section \<open>moveLeft then moveRight\<close>

text \<open>
  Claim C8. In every engine state whose current piece passes \<open>isValidMove\<close> both where
  it is and one column to the left, \<open>moveLeft()\<close> followed by \<open>moveRight()\<close> gives back a
  current piece equal to the original (type, position, rotation and power-up) and
  leaves the grid unchanged; the whole state is the original one with the ghost
  position recomputed.
\<close>

theorem moveLeft_moveRight_roundtrip:
  assumes "currentTetrimino s = Some t"
    and "isValidMove (grid s) (tetriminoMoveLeft t)"
    and "isValidMove (grid s) t"
  shows "currentTetrimino (moveRight (moveLeft s)) = Some t \<and>
         grid (moveRight (moveLeft s)) = grid s \<and>
         moveRight (moveLeft s) = updateGhostPosition s"
proof -
  have inv: "tetriminoMoveRight (tetriminoMoveLeft t) = t"
    by (cases t) (simp add: tetriminoMoveRight_def tetriminoMoveLeft_def)
  have l: "moveLeft s = updateGhostPosition (s\<lparr>currentTetrimino := Some (tetriminoMoveLeft t)\<rparr>)"
    using assms by (simp add: moveLeft_def)
  have r: "moveRight (moveLeft s) = updateGhostPosition s"
    using assms inv by (simp add: l moveRight_def updateGhostPosition_def)
  show ?thesis
    using assms(1) by (simp add: r updateGhostPosition_def)
qed

theorem moveLeft_moveRight_roundtrip_witness:
  "currentTetrimino midField = Some (Tetrimino Type_I (Position 4 0) 0 None) \<and>
   isValidMove (grid midField) (tetriminoMoveLeft (Tetrimino Type_I (Position 4 0) 0 None)) \<and>
   isValidMove (grid midField) (Tetrimino Type_I (Position 4 0) 0 None) \<and>
   currentTetrimino (moveRight (moveLeft midField))
     = Some (Tetrimino Type_I (Position 4 0) 0 None) \<and>
   grid (moveRight (moveLeft midField)) = grid midField"
proof -
  have c: "currentTetrimino midField = Some (Tetrimino Type_I (Position 4 0) 0 None)"
    by (simp add: midField_def)
  have l: "isValidMove (grid midField)
      (tetriminoMoveLeft (Tetrimino Type_I (Position 4 0) 0 None))"
    by (simp add: midField_def newGameEngine_def newGrid_def isValidMove_def
        tetriminoMoveLeft_def getBlocks_def shape_def rowBlocks_def trem_def tdiv_def wrap32_def width_def height_def
        isEmpty_def isInBounds_def cellAt_def)
  have v: "isValidMove (grid midField) (Tetrimino Type_I (Position 4 0) 0 None)"
    by (simp add: midField_def newGameEngine_def newGrid_def isValidMove_def
        getBlocks_def shape_def rowBlocks_def trem_def tdiv_def wrap32_def width_def height_def
        isEmpty_def isInBounds_def cellAt_def)
  show ?thesis
    using moveLeft_moveRight_roundtrip [OF c l v] c l v by blast
qed

section \<open>Line-clear score\<close>

text \<open>
  Claim C3. \<open>updateScore(linesCleared)\<close>, called at lock time, adds to the score the
  table value for \<open>linesCleared\<close> (0, 100, 300, 500, 800 for 0 to 4 lines) times the
  current multiplier, in \<open>Int\<close> arithmetic; the sum is the exact one whenever it fits
  the \<open>Int\<close> range. For every \<open>linesCleared\<close> above 4 the table value, and so the bonus,
  is \<open>0\<close>.
\<close>

theorem updateScore_award:
  "score (updateScore s n now) = wrap32 (score s + wrap32 (basePoints n * multiplier s)) \<and>
   basePoints 0 = 0 \<and> basePoints 1 = 100 \<and> basePoints 2 = 300 \<and> basePoints 3 = 500 \<and>
   basePoints 4 = 800 \<and>
   (4 < n \<longrightarrow> basePoints n = 0 \<and> score (updateScore s n now) = wrap32 (score s)) \<and>
   (int32 (score s) \<and> int32 (basePoints n * multiplier s) \<and>
    int32 (score s + basePoints n * multiplier s) \<longrightarrow>
      score (updateScore s n now) = score s + basePoints n * multiplier s)"
  by (auto simp: updateScore_def checkMultiplierExpiration_def basePoints_def wrap32_id
      wrap32_def [of 0])

theorem updateScore_award_witness:
  "(4::int) < 7 \<and> basePoints 7 = 0 \<and>
   score (updateScore (newGameEngine\<lparr>score := 1200, multiplier := 5\<rparr>) 7 0) = 1200 \<and>
   int32 (score (newGameEngine\<lparr>score := 1200, multiplier := 5\<rparr>)) \<and>
   int32 (basePoints 2 * multiplier (newGameEngine\<lparr>score := 1200, multiplier := 5\<rparr>)) \<and>
   int32 (score (newGameEngine\<lparr>score := 1200, multiplier := 5\<rparr>)
          + basePoints 2 * multiplier (newGameEngine\<lparr>score := 1200, multiplier := 5\<rparr>)) \<and>
   score (updateScore (newGameEngine\<lparr>score := 1200, multiplier := 5\<rparr>) 2 0) = 2700"
  using updateScore_award [of "newGameEngine\<lparr>score := 1200, multiplier := 5\<rparr>" 7 0]
    updateScore_award [of "newGameEngine\<lparr>score := 1200, multiplier := 5\<rparr>" 2 0]
  by (simp add: newGameEngine_def int32_def wrap32_def basePoints_def)

section \<open>The power-up chance\<close>

lemma bitLength_bounds:
  "0 < n \<Longrightarrow> 2 ^ (bitLength n - 1) \<le> n \<and> n < 2 ^ bitLength n"
proof (induction n rule: bitLength.induct)
  case (1 n)
  show ?case
  proof (cases "n = 1")
    case True
    have "bitLength (0::int) = 0" by (subst bitLength.simps) simp
    then have "bitLength 1 = 1" by (subst bitLength.simps) simp
    with True show ?thesis by simp
  next
    case False
    with "1.prems" have h: "0 < n div 2" by simp
    then have IH: "2 ^ (bitLength (n div 2) - 1) \<le> n div 2 \<and> n div 2 < 2 ^ bitLength (n div 2)"
      using "1.IH" "1.prems" by simp
    have pos: "0 < bitLength (n div 2)"
      using h by (subst bitLength.simps) simp
    have e: "bitLength n = Suc (bitLength (n div 2))"
      using "1.prems" by (subst bitLength.simps) simp
    have "2 ^ bitLength (n div 2) \<le> n"
    proof -
      have "2 * 2 ^ (bitLength (n div 2) - 1) \<le> 2 * (n div 2)" using IH by simp
      moreover have "2 * 2 ^ (bitLength (n div 2) - 1) = (2::int) ^ bitLength (n div 2)"
        using pos by (cases "bitLength (n div 2)") simp_all
      ultimately show ?thesis by simp
    qed
    moreover have "n < 2 * 2 ^ bitLength (n div 2)"
    proof -
      have "n div 2 + 1 \<le> 2 ^ bitLength (n div 2)" using IH by simp
      then have "2 * (n div 2) + 2 \<le> 2 * 2 ^ bitLength (n div 2)" by simp
      moreover have "n < 2 * (n div 2) + 2" by presburger
      ultimately show ?thesis by simp
    qed
    ultimately show ?thesis by (simp add: e)
  qed
qed

lemma pow2_powi: "pow2 e = 2 powi e"
  by (simp add: pow2_def power_int_def inverse_eq_divide power_one_over)

lemma pow2_pos: "0 < pow2 e"
  by (simp add: pow2_powi)

lemma ilog2_lower: "0 < q \<Longrightarrow> pow2 (ilog2 q) \<le> q"
proof (cases "1 \<le> q")
  case True
  then have f: "0 < \<lfloor>q\<rfloor>" by simp
  have "(2::int) ^ (bitLength \<lfloor>q\<rfloor> - 1) \<le> \<lfloor>q\<rfloor>"
    using bitLength_bounds [OF f] by simp
  then have "(of_int ((2::int) ^ (bitLength \<lfloor>q\<rfloor> - 1)) :: rat) \<le> of_int \<lfloor>q\<rfloor>"
    by (simp only: of_int_le_iff)
  also have "\<dots> \<le> q" by simp
  finally have "(2::rat) ^ (bitLength \<lfloor>q\<rfloor> - 1) \<le> q" by simp
  moreover have "0 < bitLength \<lfloor>q\<rfloor>"
    using f by (subst bitLength.simps) simp
  ultimately show ?thesis
    using True by (simp add: ilog2_def pow2_def nat_diff_distrib')
next
  case False
  assume q: "0 < q"
  define k where "k = bitLength (\<lceil>1 / q\<rceil> - 1)"
  have one: "1 < 1 / q" using False q by simp
  then have c: "0 < \<lceil>1 / q\<rceil> - 1" by linarith
  have "\<lceil>1 / q\<rceil> - 1 < 2 ^ k"
    using bitLength_bounds [OF c] by (simp add: k_def)
  then have "\<lceil>1 / q\<rceil> \<le> 2 ^ k" by simp
  then have "(of_int \<lceil>1 / q\<rceil> :: rat) \<le> of_int (2 ^ k)"
    by (simp only: of_int_le_iff)
  moreover have "1 / q \<le> of_int \<lceil>1 / q\<rceil>"
    by (rule le_of_int_ceiling)
  ultimately have "1 / q \<le> of_int (2 ^ k)"
    by (rule order_trans [rotated])
  then have "1 / q \<le> 2 ^ k"
    by simp
  then have "1 / 2 ^ k \<le> q"
    using q by (simp add: field_simps)
  moreover have "0 < k"
    unfolding k_def using c by (subst bitLength.simps) simp
  ultimately show ?thesis
    using False by (simp add: ilog2_def pow2_def k_def)
qed

lemma roundHalfEven_lower: "q - 1 / 2 \<le> of_int (roundHalfEven q)"
proof -
  have "q - of_int \<lfloor>q\<rfloor> < 1" by linarith
  then show ?thesis
    by (auto simp: roundHalfEven_def Let_def)
qed

lemma toFloat_lower:
  assumes "0 < q"
  shows "q - q / 16777216 \<le> toFloat q"
proof -
  define u where "u = pow2 (ilog2 \<bar>q\<bar> - 23)"
  have u: "0 < u" by (simp add: u_def pow2_pos)
  have "u = pow2 (ilog2 q) / 2 ^ 23"
    using assms by (simp add: u_def pow2_powi power_int_diff)
  then have ule: "u \<le> q / 8388608"
    using ilog2_lower [OF assms] by (simp add: field_simps)
  have "q / u - 1 / 2 \<le> of_int (roundHalfEven (q / u))"
    by (rule roundHalfEven_lower)
  then have "(q / u - 1 / 2) * u \<le> of_int (roundHalfEven (q / u)) * u"
    using u by (simp only: mult_le_cancel_right_pos)
  moreover have "(q / u - 1 / 2) * u = q - u / 2"
    using u by (simp add: field_simps)
  ultimately have "q - u / 2 \<le> of_int (roundHalfEven (q / u)) * u"
    by simp
  moreover have "toFloat q = of_int (roundHalfEven (q / u)) * u"
    using assms by (simp add: toFloat_def Let_def u_def)
  ultimately show ?thesis
    using ule by simp
qed

lemma powerUpChance_capped:
  assumes "11 \<le> lvl"
  shows "powerUpChance lvl = float_0_15"
proof -
  have l: "(11::rat) \<le> of_int lvl" using assms by simp
  have a: "109 / 10 \<le> toFloat (of_int lvl)"
    using toFloat_lower [of "of_int lvl"] l by simp
  have "0 < toFloat (of_int lvl) * float_0_01"
    using a by (simp add: float_0_01_def)
  from toFloat_lower [OF this]
  have b: "108 / 1000 \<le> toFloat (toFloat (of_int lvl) * float_0_01)"
    using a by (simp add: float_0_01_def)
  have "0 < float_0_05 + toFloat (toFloat (of_int lvl) * float_0_01)"
    using b by (simp add: float_0_05_def)
  from toFloat_lower [OF this]
  have "float_0_05 + toFloat (toFloat (of_int lvl) * float_0_01)
      - (float_0_05 + toFloat (toFloat (of_int lvl) * float_0_01)) / 16777216
      \<le> toFloat (float_0_05 + toFloat (toFloat (of_int lvl) * float_0_01))" .
  moreover have "float_0_15 \<le> float_0_05 + toFloat (toFloat (of_int lvl) * float_0_01)
      - (float_0_05 + toFloat (toFloat (of_int lvl) * float_0_01)) / 16777216"
  proof -
    have "5033165 / 33554432 \<le> 13421773 / 268435456 + B - (13421773 / 268435456 + B) / 16777216"
      if "108 / 1000 \<le> B" for B :: rat
      using that by (simp add: field_simps)
    then show ?thesis
      using b by (simp only: float_0_05_def float_0_15_def)
  qed
  ultimately have "float_0_15
      \<le> toFloat (float_0_05 + toFloat (toFloat (of_int lvl) * float_0_01))"
    by (rule order_trans [rotated])
  then show ?thesis
    by (simp add: powerUpChance_def Let_def)
qed

lemma powerUpChance_values:
  "powerUpChance 1 = 1006633 / 16777216"
  "powerUpChance 2 = 9395241 / 134217728"
  "powerUpChance 3 = 5368709 / 67108864"
  "powerUpChance 4 = 3019899 / 33554432"
  "powerUpChance 5 = 3355443 / 33554432"
  "powerUpChance 6 = 7381975 / 67108864"
  "powerUpChance 7 = 1006633 / 8388608"
  "powerUpChance 8 = 1090519 / 8388608"
  "powerUpChance 9 = 9395241 / 67108864"
  "powerUpChance 10 = 10066329 / 67108864"
  by code_simp+

lemma powerUpChance_close:
  assumes "1 \<le> lvl"
  shows "\<bar>powerUpChance lvl - min (5 / 100 + of_int lvl / 100) (15 / 100)\<bar> \<le> 1 / 67108864"
proof (cases "11 \<le> lvl")
  case True
  then have "(11::rat) \<le> of_int lvl" by simp
  then have "min (5 / 100 + of_int lvl / 100) (15 / 100) = (15 / 100 :: rat)"
    by (simp add: min_def)
  then show ?thesis
    by (simp add: powerUpChance_capped [OF True] float_0_15_def)
next
  case False
  with assms have "lvl = 1 \<or> lvl = 2 \<or> lvl = 3 \<or> lvl = 4 \<or> lvl = 5 \<or> lvl = 6 \<or> lvl = 7
      \<or> lvl = 8 \<or> lvl = 9 \<or> lvl = 10"
    by presburger
  then show ?thesis
    by (auto simp: powerUpChance_values)
qed

text \<open>
  Claim C9, as stated, fails: at level 1 the chance is not the base 5%. The draw
  \<open>900000 / 2^24\<close> (about 0.0536) is not below 0.05, and \<open>shouldGeneratePowerUp(1)\<close>
  succeeds on it.
\<close>

theorem powerUp_chance_level1_counterexample:
  "shouldGeneratePowerUp 1 900000 \<and> \<not> nextFloat 900000 < 5 / 100 \<and>
   \<not> nextFloat 900000 < float_0_05"
  by code_simp

text \<open>
  Claim C9, amended. \<open>shouldGeneratePowerUp(level)\<close> succeeds exactly when the sampled
  value is below the chance computed in single precision; for every level from 1 on
  that chance is within \<open>2^-26\<close> of \<open>min(0.05 + 0.01 * level, 0.15)\<close>, and from level 11
  on it is the cap \<open>0.15f\<close>. At level 1 the chance is 6%: the base 5% plus 1% for the
  level, so that 1006633 of the \<open>2^24\<close> equally likely samples succeed.
\<close>

theorem powerUp_chance:
  "(shouldGeneratePowerUp lvl bits \<longleftrightarrow> nextFloat bits < powerUpChance lvl) \<and>
   (1 \<le> lvl \<longrightarrow>
      \<bar>powerUpChance lvl - min (5 / 100 + of_int lvl / 100) (15 / 100)\<bar> \<le> 1 / 67108864) \<and>
   (11 \<le> lvl \<longrightarrow> powerUpChance lvl = float_0_15) \<and>
   powerUpChance 1 = 1006633 / 16777216 \<and>
   (shouldGeneratePowerUp 1 bits \<longleftrightarrow> bits mod 16777216 < 1006633)"
proof -
  have "shouldGeneratePowerUp 1 bits \<longleftrightarrow> bits mod 16777216 < 1006633"
    by (simp add: shouldGeneratePowerUp_def nextFloat_def powerUpChance_values)
  then show ?thesis
    using powerUpChance_close [of lvl] powerUpChance_capped [of lvl]
    by (simp add: shouldGeneratePowerUp_def powerUpChance_values)
qed

theorem powerUp_chance_witness:
  "(1::int) \<le> 12 \<and> (11::int) \<le> 12 \<and> powerUpChance 12 = float_0_15 \<and>
   \<bar>powerUpChance 12 - min (5 / 100 + of_int 12 / 100) (15 / 100)\<bar> \<le> 1 / 67108864 \<and>
   shouldGeneratePowerUp 1 900000"
  using powerUp_chance [of 12 900000] by (simp add: float_0_15_def)

section \<open>Grid.clearLines\<close>

lemma fold_zero_row:
  "k \<le> length row \<Longrightarrow>
     fold (\<lambda>xi row. row[xi := 0]) [0..<k] row = replicate k (0::int) @ drop k row"
proof (induction k)
  case 0
  then show ?case by simp
next
  case (Suc k)
  then have k: "k < length row" by simp
  have "(replicate k (0::int) @ drop k row)[k := 0] = replicate k 0 @ (drop k row)[0 := 0]"
    by (simp add: list_update_append)
  also have "\<dots> = replicate k 0 @ 0 # drop (Suc k) row"
    using k by (simp add: Cons_nth_drop_Suc [symmetric])
  also have "\<dots> = replicate (Suc k) 0 @ drop (Suc k) row"
    by (simp add: replicate_app_Cons_same)
  finally show ?case
    using Suc by simp
qed

lemma fold_zero_row_full:
  "length row = k \<Longrightarrow> fold (\<lambda>xi row. row[xi := 0]) [0..<k] row = replicate k (0::int)"
  using fold_zero_row [of k row] by simp

lemma fold_shift_rows:
  "k < length cs \<Longrightarrow>
     fold (\<lambda>yi cs. cs[yi := cs ! (yi - 1)]) (rev [1..<Suc k]) cs
       = hd cs # take k cs @ drop (Suc k) cs"
proof (induction k arbitrary: cs)
  case 0
  then show ?case by (cases cs) simp_all
next
  case (Suc k)
  let ?cs = "cs[Suc k := cs ! k]"
  have k: "k < length ?cs" using Suc.prems by simp
  have "fold (\<lambda>yi cs. cs[yi := cs ! (yi - 1)]) (rev [1..<Suc (Suc k)]) cs
      = fold (\<lambda>yi cs. cs[yi := cs ! (yi - 1)]) (rev [1..<Suc k]) ?cs"
    by simp
  also have "\<dots> = hd ?cs # take k ?cs @ drop (Suc k) ?cs"
    using Suc.IH [OF k] .
  also have "hd ?cs = hd cs"
    using Suc.prems by (cases cs) simp_all
  also have "take k ?cs = take k cs" by simp
  also have "drop (Suc k) ?cs = cs ! k # drop (Suc (Suc k)) cs"
    using Suc.prems by (simp add: drop_update_cancel Cons_nth_drop_Suc [symmetric] upd_conv_take_nth_drop)
  finally show ?case
    using Suc.prems by (simp add: take_Suc_conv_app_nth)
qed

lemma wf_grid_setCell:
  assumes "wf_grid g"
  shows "wf_grid (setCell g p v)"
proof -
  have "length ((cells g)[a := (cells g ! a)[b := v]] ! n) = nat (width g)"
    if "n < length (cells g)" for n a b
    using that assms by (cases "a = n") (simp_all add: wf_grid_def list_all_length)
  then show ?thesis
    using assms by (simp add: wf_grid_def setCell_def width_def height_def list_all_length)
qed

lemma gridWidth_setCell: "gridWidth (setCell g p v) = gridWidth g"
  by (simp add: setCell_def)

lemma wf_grid_clearCell: "wf_grid g \<Longrightarrow> wf_grid (clearCell g p)"
  by (simp add: clearCell_def wf_grid_setCell)

lemma wf_grid_fold:
  assumes "\<And>p ga. wf_grid ga \<Longrightarrow> wf_grid (f p ga)" "wf_grid g"
  shows "wf_grid (fold f ps g)"
  using assms(2) by (induction ps arbitrary: g) (simp_all add: assms(1))

lemma wf_grid_place: "wf_grid g \<Longrightarrow> wf_grid (place g t)"
proof -
  assume w: "wf_grid g"
  have "wf_grid (snd (getColorIndex g c))" for c
    using w by (auto simp: getColorIndex_def wf_grid_def width_def height_def split: option.splits)
  then show ?thesis
    by (auto simp: place_def split: prod.splits intro!: wf_grid_fold wf_grid_setCell)
      (metis snd_conv)
qed

lemma clearLine_cells:
  assumes "wf_grid g" "0 \<le> yy" "yy < height g"
  shows "clearLine g yy = Some (g\<lparr>cells := (cells g)[nat yy := replicate (nat (width g)) 0]\<rparr>)"
proof -
  have "nat yy < length (cells g)"
    using assms by (simp add: wf_grid_def)
  then have "length (cells g ! nat yy) = nat (width g)"
    using assms(1) by (simp add: wf_grid_def list_all_length)
  then show ?thesis
    using assms by (simp add: clearLine_def fold_zero_row_full)
qed

lemma wf_grid_cells_update:
  assumes "wf_grid g" "length cs = length (cells g)"
    "\<And>row. row \<in> set cs \<Longrightarrow> length row = nat (width g)"
  shows "wf_grid (g\<lparr>cells := cs, orbs := os\<rparr>)" "wf_grid (g\<lparr>cells := cs\<rparr>)"
  using assms by (auto simp: wf_grid_def width_def height_def list_all_iff)

lemma wf_grid_clearLine: "wf_grid g \<Longrightarrow> clearLine g yy = Some g' \<Longrightarrow> wf_grid g'"
proof -
  assume w: "wf_grid g" and c: "clearLine g yy = Some g'"
  then have r: "0 \<le> yy" "yy < height g"
    by (auto simp: clearLine_def wf_grid_def split: if_splits)
  show ?thesis
    using c w unfolding clearLine_cells [OF w r]
    by (auto simp: wf_grid_def width_def height_def list_all_iff
        dest!: set_update_subset_insert [THEN subsetD])
qed

lemma shiftLinesDown_cells:
  assumes "wf_grid g" "0 \<le> yy" "yy < height g"
  shows "shiftLinesDown g yy =
     Some (g\<lparr>cells := replicate (nat (width g)) 0 # take (nat yy) (cells g)
                         @ drop (Suc (nat yy)) (cells g),
             orbs := shiftOrbsDown_loop yy 0 (orbs g)\<rparr>)"
proof -
  let ?cs = "hd (cells g) # take (nat yy) (cells g) @ drop (Suc (nat yy)) (cells g)"
  have k: "nat yy < length (cells g)"
    using assms by (simp add: wf_grid_def)
  have f: "fold (\<lambda>yi cs. cs[yi := cs ! (yi - 1)]) (rev [1..<Suc (nat yy)]) (cells g) = ?cs"
    using k by (rule fold_shift_rows)
  have len: "length ?cs = length (cells g)"
    using k by simp
  have rows: "length row = nat (width g)" if "row \<in> set ?cs" for row
  proof -
    have "hd (cells g) \<in> set (cells g)" using k by (cases "cells g") simp_all
    with that have "row \<in> set (cells g)"
      by (auto dest: in_set_takeD in_set_dropD)
    with assms(1) show ?thesis by (simp add: wf_grid_def list_all_iff)
  qed
  have w: "wf_grid (g\<lparr>cells := ?cs\<rparr>)"
    using assms(1) len rows by (rule wf_grid_cells_update(2))
  have h: "(0::int) < height (g\<lparr>cells := ?cs\<rparr>)" "width (g\<lparr>cells := ?cs\<rparr>) = width g"
    using assms by (simp_all add: height_def width_def wf_grid_def)
  have "clearLine (g\<lparr>cells := ?cs\<rparr>) 0
      = Some (g\<lparr>cells := replicate (nat (width g)) 0 # take (nat yy) (cells g)
                         @ drop (Suc (nat yy)) (cells g)\<rparr>)"
    using clearLine_cells [OF w _ h(1)] h(2) by simp
  then show ?thesis
    unfolding shiftLinesDown_def f using assms by (simp add: shiftOrbsDown_def)
qed

text \<open>One cleared row: \<open>clearLine(y)\<close> followed by \<open>shiftLinesDown(y)\<close>.\<close>

lemma clear_and_shift:
  assumes "wf_grid g" "0 \<le> yy" "yy < height g"
  shows "\<exists>g1. clearLine g yy = Some g1 \<and>
     shiftLinesDown g1 yy =
       Some (g\<lparr>cells := replicate (nat (width g)) 0 # take (nat yy) (cells g)
                           @ drop (Suc (nat yy)) (cells g),
               orbs := shiftOrbsDown_loop yy 0 (orbs g)\<rparr>)"
proof -
  let ?g1 = "g\<lparr>cells := (cells g)[nat yy := replicate (nat (width g)) 0]\<rparr>"
  have c: "clearLine g yy = Some ?g1"
    using assms by (rule clearLine_cells)
  have w: "wf_grid ?g1"
    using assms(1) c by (rule wf_grid_clearLine)
  have h: "yy < height ?g1" using assms(3) by (simp add: height_def)
  show ?thesis
    using shiftLinesDown_cells [OF w assms(2) h] c by (simp add: width_def)
qed

lemma isLineComplete_completeRow: "isLineComplete g yy = completeRow (cells g ! nat yy)"
  by (simp add: isLineComplete_def completeRow_def)

lemma zero_row_incomplete: "0 < w \<Longrightarrow> \<not> completeRow (replicate w 0)"
  by (cases w) (simp_all add: completeRow_def)

lemma clearLines_loop_result:
  assumes "wf_grid g" "- 1 \<le> yy" "yy < height g"
  shows "\<exists>m' r' os'. clearLines_loop g yy n m r =
     Some (g\<lparr>cells := clearedCells (nat (width g)) (nat (yy + 1)) (cells g), orbs := os'\<rparr>,
           n + int (length (filter completeRow (take (nat (yy + 1)) (cells g)))), m', r')"
  using assms
proof (induction "length (filter completeRow (take (nat (yy + 1)) (cells g))) + nat (yy + 1)"
    arbitrary: g yy n m r rule: less_induct)
  case less
  show ?case
  proof (cases "0 \<le> yy")
    case False
    then have z: "nat (yy + 1) = 0" by simp
    have "clearLines_loop g yy n m r =
        Some (g\<lparr>cells := clearedCells (nat (width g)) (nat (yy + 1)) (cells g),
                orbs := orbs g\<rparr>,
              n + int (length (filter completeRow (take (nat (yy + 1)) (cells g)))), m, r)"
      using False by (subst clearLines_loop.simps) (simp add: z clearedCells_def)
    then show ?thesis by blast
  next
    case True
    let ?k = "nat yy"
    let ?cs = "cells g"
    let ?z = "replicate (nat (width g)) (0::int)"
    have k: "?k < length ?cs"
      using True less.prems by (simp add: wf_grid_def)
    have sk: "nat (yy + 1) = Suc ?k" using True by simp
    have tk: "take (Suc ?k) ?cs = take ?k ?cs @ [?cs ! ?k]"
      using k by (rule take_Suc_conv_app_nth)
    have w: "0 < nat (width g)" using less.prems by (simp add: wf_grid_def)
    show ?thesis
    proof (cases "isLineComplete g yy")
      case True
      then have comp: "completeRow (?cs ! ?k)" by (simp add: isLineComplete_completeRow)
      let ?cs2 = "?z # take ?k ?cs @ drop (Suc ?k) ?cs"
      let ?g2 = "g\<lparr>cells := ?cs2, orbs := shiftOrbsDown_loop yy 0 (orbs g)\<rparr>"
      obtain g1 where c: "clearLine g yy = Some g1" and sh: "shiftLinesDown g1 yy = Some ?g2"
        using clear_and_shift [OF less.prems(1) \<open>0 \<le> yy\<close> less.prems(3)] by blast
      have len2: "length ?cs2 = length ?cs" using k by simp
      have rows2: "length row = nat (width g)" if "row \<in> set ?cs2" for row
      proof -
        from that have "row = ?z \<or> row \<in> set ?cs"
          by (auto dest: in_set_takeD in_set_dropD)
        with less.prems(1) show ?thesis by (auto simp: wf_grid_def list_all_iff)
      qed
      have w2: "wf_grid ?g2"
        using less.prems(1) len2 rows2 by (rule wf_grid_cells_update(1))
      have h2: "yy < height ?g2" using less.prems(3) by (simp add: height_def)
      have t2: "take (Suc ?k) ?cs2 = ?z # take ?k ?cs"
        using k by simp
      have d2: "drop (Suc ?k) ?cs2 = drop (Suc ?k) ?cs"
        using k by simp
      have cnt: "length (filter completeRow (take (Suc ?k) ?cs))
          = Suc (length (filter completeRow (take ?k ?cs)))"
        using comp by (simp add: tk)
      have cnt2: "length (filter completeRow (take (Suc ?k) ?cs2))
          = length (filter completeRow (take ?k ?cs))"
        unfolding t2 using zero_row_incomplete [OF w] by simp
      have "length (filter completeRow (take (nat (yy + 1)) (cells ?g2))) + nat (yy + 1)
          < length (filter completeRow (take (nat (yy + 1)) (cells g))) + nat (yy + 1)"
        using cnt cnt2 by (simp add: sk)
      from less.hyps [OF this w2 less.prems(2) h2]
      obtain m' r' os' where loop:
        "clearLines_loop ?g2 yy (n + 1)
           (fold (\<lambda>orb m. wrap32 (m * orbMultiplier orb))
              (filter (\<lambda>orb. posY (orbPosition orb) = yy) (orbs g)) m)
           (r @ filter (\<lambda>orb. posY (orbPosition orb) = yy) (orbs g))
         = Some (?g2\<lparr>cells := clearedCells (nat (width ?g2)) (nat (yy + 1)) (cells ?g2),
                      orbs := os'\<rparr>,
                 n + 1 + int (length (filter completeRow (take (nat (yy + 1)) (cells ?g2)))),
                 m', r')"
        by blast
      have cc: "clearedCells (nat (width g)) (Suc ?k) ?cs2
          = clearedCells (nat (width g)) (Suc ?k) ?cs"
        unfolding clearedCells_def t2 d2 tk using zero_row_incomplete [OF w] comp
        by (simp add: replicate_app_Cons_same)
      have e1: "?g2\<lparr>cells := X, orbs := os'\<rparr> = g\<lparr>cells := X, orbs := os'\<rparr>" for X
        by simp
      have e2: "cells ?g2 = ?cs2" by simp
      have e3: "width ?g2 = width g" by (simp add: width_def)
      have e4: "n + 1 + int (length (filter completeRow (take ?k ?cs)))
          = n + int (Suc (length (filter completeRow (take ?k ?cs))))"
        by simp
      note loop' = loop [unfolded e1 e2 e3 sk cc cnt2 e4]
      have "clearLines_loop g yy n m r
          = Some (g\<lparr>cells := clearedCells (nat (width g)) (Suc ?k) (cells g), orbs := os'\<rparr>,
                  n + int (Suc (length (filter completeRow (take ?k ?cs)))), m', r')"
        using \<open>0 \<le> yy\<close> True c sh
        by (subst clearLines_loop.simps) (simp only: if_True Let_def option.case loop')
      then have "clearLines_loop g yy n m r
          = Some (g\<lparr>cells := clearedCells (nat (width g)) (nat (yy + 1)) (cells g), orbs := os'\<rparr>,
                  n + int (length (filter completeRow (take (nat (yy + 1)) (cells g)))), m', r')"
        unfolding sk cnt .
      then show ?thesis by blast
    next
      case False
      then have ncomp: "\<not> completeRow (?cs ! ?k)" by (simp add: isLineComplete_completeRow)
      have s1: "nat (yy - 1 + 1) = ?k" by simp
      have "length (filter completeRow (take (nat (yy - 1 + 1)) (cells g))) + nat (yy - 1 + 1)
          < length (filter completeRow (take (nat (yy + 1)) (cells g))) + nat (yy + 1)"
        using ncomp by (simp add: s1 sk tk)
      from less.hyps [OF this less.prems(1)] \<open>0 \<le> yy\<close> less.prems(3)
      obtain m' r' os' where loop:
        "clearLines_loop g (yy - 1) n m r
         = Some (g\<lparr>cells := clearedCells (nat (width g)) (nat (yy - 1 + 1)) (cells g),
                   orbs := os'\<rparr>,
                 n + int (length (filter completeRow (take (nat (yy - 1 + 1)) (cells g)))),
                 m', r')"
        by fastforce
      have cc: "clearedCells (nat (width g)) ?k ?cs = clearedCells (nat (width g)) (Suc ?k) ?cs"
        using ncomp k by (simp add: clearedCells_def tk Cons_nth_drop_Suc)
      have "clearLines_loop g yy n m r
          = Some (g\<lparr>cells := clearedCells (nat (width g)) (nat (yy + 1)) (cells g), orbs := os'\<rparr>,
                  n + int (length (filter completeRow (take (nat (yy + 1)) (cells g)))), m', r')"
        using \<open>0 \<le> yy\<close> False loop ncomp
        by (subst clearLines_loop.simps) (simp add: s1 sk cc tk)
      then show ?thesis by blast
    qed
  qed
qed

lemma trySpawnOrb_orbs: "trySpawnOrb g d = g\<lparr>orbs := orbs (trySpawnOrb g d)\<rparr>"
  by (simp add: trySpawnOrb_def Let_def split: option.splits)

lemma clearedCells_all:
  "clearedCells w (length cs) cs =
     replicate (length (filter completeRow cs)) (replicate w 0)
       @ filter (\<lambda>row. \<not> completeRow row) cs"
  by (simp add: clearedCells_def)

lemma clearLines_result:
  assumes "wf_grid g"
  shows "\<exists>os m. clearLines g d =
     Some (g\<lparr>cells := replicate (length (filter completeRow (cells g)))
                         (replicate (nat (width g)) 0)
                       @ filter (\<lambda>row. \<not> completeRow row) (cells g),
             orbs := os\<rparr>,
           int (length (filter completeRow (cells g))), m)"
proof -
  have k: "nat (height g - 1 + 1) = length (cells g)"
    using assms by (simp add: wf_grid_def)
  have "- 1 \<le> height g - 1" "height g - 1 < height g"
    using assms by (simp_all add: wf_grid_def)
  from clearLines_loop_result [OF assms this, of 0 1 "[]"]
  obtain m' r' os' where loop: "clearLines_loop g (height g - 1) 0 1 [] =
      Some (g\<lparr>cells := clearedCells (nat (width g)) (length (cells g)) (cells g), orbs := os'\<rparr>,
            int (length (filter completeRow (cells g))), m', r')"
    unfolding k by auto
  let ?g1 = "g\<lparr>cells := clearedCells (nat (width g)) (length (cells g)) (cells g), orbs := os'\<rparr>"
  have sp: "\<exists>os'. trySpawnOrb (g\<lparr>cells := C, orbs := os\<rparr>) d = g\<lparr>cells := C, orbs := os'\<rparr>"
    for C os
  proof -
    have "trySpawnOrb (g\<lparr>cells := C, orbs := os\<rparr>) d
        = g\<lparr>cells := C, orbs := orbs (trySpawnOrb (g\<lparr>cells := C, orbs := os\<rparr>) d)\<rparr>"
      by (subst trySpawnOrb_orbs) simp
    then show ?thesis by blast
  qed
  show ?thesis
    unfolding clearLines_def loop clearedCells_all [symmetric]
    by (auto simp: Let_def sp)
qed

lemma wf_grid_newGrid: "0 < sint w \<Longrightarrow> 0 < sint h \<Longrightarrow> wf_grid (newGrid w h)"
  by (simp add: wf_grid_def newGrid_def width_def height_def list_all_iff)

lemma wf_grid_clearLines:
  assumes "wf_grid g" "clearLines g d = Some (g', n, m)"
  shows "wf_grid g'"
proof -
  from clearLines_result [OF assms(1), of d] assms(2)
  obtain os where g': "g' = g\<lparr>cells := replicate (length (filter completeRow (cells g)))
                         (replicate (nat (width g)) 0)
                       @ filter (\<lambda>row. \<not> completeRow row) (cells g), orbs := os\<rparr>"
    by auto
  have "length (filter completeRow (cells g)) + length (filter (\<lambda>row. \<not> completeRow row) (cells g))
      = length (cells g)"
    using sum_length_filter_compl [of completeRow "cells g"] by simp
  then show ?thesis
    unfolding g' using assms(1)
    by (intro wf_grid_cells_update(1)) (auto simp: wf_grid_def list_all_iff)
qed

lemma wf_grid_shiftLinesDown:
  assumes "wf_grid g" "shiftLinesDown g yy = Some g'"
  shows "wf_grid g'"
proof (cases "0 \<le> yy")
  case True
  have h: "yy < height g"
    using assms True by (cases "1 \<le> yy") (auto simp: shiftLinesDown_def wf_grid_def split: if_splits)
  have "length row = nat (width g)"
    if "row \<in> set (replicate (nat (width g)) 0 # take (nat yy) (cells g)
                       @ drop (Suc (nat yy)) (cells g))" for row
  proof -
    from that have "row = replicate (nat (width g)) 0 \<or> row \<in> set (cells g)"
      by (auto dest: in_set_takeD in_set_dropD)
    with assms(1) show ?thesis by (auto simp: wf_grid_def list_all_iff)
  qed
  moreover have "length (replicate (nat (width g)) (0::int) # take (nat yy) (cells g)
                       @ drop (Suc (nat yy)) (cells g)) = length (cells g)"
    using h True assms(1) by (simp add: wf_grid_def)
  ultimately show ?thesis
    using assms(2) unfolding shiftLinesDown_cells [OF assms(1) True h]
    by (auto intro!: wf_grid_cells_update(1) [OF assms(1)])
next
  case False
  then have n: "nat yy = 0" by simp
  have h: "(0::int) < height g" using assms(1) by (simp add: wf_grid_def)
  have "wf_grid (g\<lparr>cells := cells g\<rparr>)" using assms(1) by simp
  from clearLine_cells [OF this _ _, of 0] h
  have "clearLine (g\<lparr>cells := cells g\<rparr>) 0
      = Some (g\<lparr>cells := (cells g)[0 := replicate (nat (width g)) 0]\<rparr>)"
    by (simp add: height_def width_def)
  then have "g' = shiftOrbsDown (g\<lparr>cells := (cells g)[0 := replicate (nat (width g)) 0]\<rparr>) yy"
    using assms(2) False by (simp add: shiftLinesDown_def n)
  then show ?thesis
    using assms(1)
    by (auto simp: shiftOrbsDown_def wf_grid_def width_def height_def list_all_length nth_list_update)
qed

lemma fold_zero_rows:
  "k \<le> length cs \<Longrightarrow>
     fold (\<lambda>yi cs. cs[yi := F (cs ! yi)]) [0..<k] cs = map F (take k cs) @ drop k cs"
proof (induction k)
  case 0
  then show ?case by simp
next
  case (Suc k)
  then have k: "k < length cs" by simp
  have "(map F (take k cs) @ drop k cs)[k := F ((map F (take k cs) @ drop k cs) ! k)]
      = map F (take k cs) @ (drop k cs)[0 := F (cs ! k)]"
    using k by (simp add: list_update_append nth_append)
  also have "\<dots> = map F (take k cs) @ F (cs ! k) # drop (Suc k) cs"
    using k by (simp add: Cons_nth_drop_Suc [symmetric])
  also have "\<dots> = map F (take (Suc k) cs) @ drop (Suc k) cs"
    using k by (simp add: take_Suc_conv_app_nth)
  finally show ?case
    using Suc by simp
qed

lemma reset_cells:
  assumes "wf_grid g"
  shows "reset g = g\<lparr>cells := replicate (nat (height g)) (replicate (nat (width g)) 0),
                     colorMap := [], nextColorIndex := 1, orbs := []\<rparr>"
proof -
  have len: "length (cells g) = nat (height g)"
    using assms by (simp add: wf_grid_def)
  have "fold (\<lambda>yi cs. cs[yi := fold (\<lambda>xi row. row[xi := 0]) [0..<nat (width g)] (cs ! yi)])
          [0..<nat (height g)] (cells g)
      = map (fold (\<lambda>xi row. row[xi := 0]) [0..<nat (width g)]) (cells g)"
    using fold_zero_rows [of "length (cells g)" "cells g"
        "fold (\<lambda>xi row. row[xi := 0]) [0..<nat (width g)]"]
    by (simp add: len)
  also have "\<dots> = map (\<lambda>row. replicate (nat (width g)) 0) (cells g)"
    using assms by (intro map_cong refl fold_zero_row_full) (simp add: wf_grid_def list_all_iff)
  also have "\<dots> = replicate (nat (height g)) (replicate (nat (width g)) 0)"
    by (simp add: map_replicate_const len)
  finally show ?thesis
    by (simp add: reset_def)
qed

lemma wf_grid_reset: "wf_grid g \<Longrightarrow> wf_grid (reset g)"
  by (simp add: reset_cells) (simp add: wf_grid_def width_def height_def list_all_iff)

lemma reachableGrid_wf: "reachableGrid g \<Longrightarrow> wf_grid g"
  by (induction rule: reachableGrid.induct)
    (auto intro: wf_grid_newGrid wf_grid_place wf_grid_clearLines wf_grid_clearLine
      wf_grid_clearCell wf_grid_shiftLinesDown wf_grid_reset)

lemma grid_spawnTetrimino: "grid (spawnTetrimino env s) = grid s"
  by (simp add: spawnTetrimino_def updateGhostPosition_def Let_def)

lemma grid_moves:
  "grid (moveLeft s) = grid s" "grid (moveRight s) = grid s" "grid (rotateCurrent s) = grid s"
  "grid (pauseGame s) = grid s" "grid (resumeGame s) = grid s"
  by (simp_all add: moveLeft_def moveRight_def rotateCurrent_def pauseGame_def resumeGame_def
      updateGhostPosition_def Let_def split: option.splits)

lemma fold_invariant:
  assumes "\<And>p ga. P ga \<Longrightarrow> P (f p ga)" "P g"
  shows "P (fold f ps g)"
  using assms(2) by (induction ps arbitrary: g) (simp_all add: assms(1))

lemma fold_clearRow_invariant:
  assumes "fold clearRow rows (Some g) = Some g'" "P g"
    and step: "\<And>g yy g1 g2. P g \<Longrightarrow> clearLine g yy = Some g1 \<Longrightarrow> shiftLinesDown g1 yy = Some g2
           \<Longrightarrow> P g2"
  shows "P g'"
  using assms(1,2)
proof (induction rows arbitrary: g)
  case Nil
  then show ?case by simp
next
  case (Cons r rows)
  show ?case
  proof (cases "clearRow r (Some g)")
    case None
    with Cons.prems show ?thesis by (simp add: fold_clearRow_None)
  next
    case (Some g1)
    then have "P g1"
      using Cons.prems(2) step by (auto simp: clearRow_def split: if_splits option.splits)
    moreover have "fold clearRow rows (Some g1) = Some g'"
      using Cons.prems(1) Some by simp
    ultimately show ?thesis by (rule Cons.IH [rotated])
  qed
qed

lemma reachableGrid_lockEffect:
  assumes "lockEffect s t = Some s1" "reachableGrid (grid s)"
  shows "reachableGrid (grid s1)"
proof (cases "powerUp t")
  case None
  with assms show ?thesis by (auto simp: lockEffect_def intro: rg_place)
next
  case (Some pu)
  show ?thesis
  proof (cases pu)
    case BOMB
    have "reachableGrid (fold (\<lambda>p ga. if isInBounds ga p then clearCell ga p else ga) ps (grid s))"
      for ps
      using assms(2) by (intro fold_invariant [where P = reachableGrid]) (auto intro: rg_clearCell)
    then show ?thesis
      using assms Some BOMB by (auto simp: lockEffect_def applyBombEffect_def Let_def)
  next
    case LINE_CLEAR
    from assms(1) Some LINE_CLEAR obtain g' where
      f: "fold clearRow (distinctFirst (map posY (getBlocks t))) (Some (grid s)) = Some g'"
      and g': "grid s1 = g'"
      by (auto simp: lockEffect_def applyLineClearEffect_def Let_def split: option.splits)
    have "reachableGrid g'"
      using f assms(2)
      by (rule fold_clearRow_invariant) (blast intro: rg_clearLine rg_shiftLinesDown)
    then show ?thesis by (simp add: g')
  next
    case GHOST
    with assms Some show ?thesis by (auto simp: lockEffect_def intro: rg_place)
  qed
qed

lemma lockTetrimino_grid:
  assumes "lockTetrimino env s = Some s'" "currentTetrimino s = Some t"
  shows "\<exists>s1 n m. lockEffect s t = Some s1 \<and>
           clearLines (grid s1) (orbDraws env) = Some (grid s', n, m)"
  using assms
  by (auto simp: lockTetrimino_def Let_def grid_spawnTetrimino checkLevelUp_def updateScore_def
      checkMultiplierExpiration_def applyMultiplier_def split: option.splits)

lemma reachableGrid_lockTetrimino:
  assumes "lockTetrimino env s = Some s'" "reachableGrid (grid s)"
  shows "reachableGrid (grid s')"
proof (cases "currentTetrimino s")
  case None
  with assms show ?thesis by (simp add: lockTetrimino_def)
next
  case (Some t)
  from lockTetrimino_grid [OF assms(1) Some] obtain s1 n m where
    e: "lockEffect s t = Some s1" and c: "clearLines (grid s1) (orbDraws env) = Some (grid s', n, m)"
    by blast
  show ?thesis
    using reachableGrid_lockEffect [OF e assms(2)] c by (rule rg_clearLines)
qed

lemma reachableGrid_step:
  assumes "reachableGrid (grid s)" "step env c s = Some s'"
  shows "reachableGrid (grid s')"
proof (cases c)
  case StartGame
  with assms show ?thesis
    by (auto simp: startGame_def grid_spawnTetrimino intro: rg_reset)
next
  case MoveDown
  with assms show ?thesis
    by (auto simp: moveDown_def Let_def split: option.splits if_splits
        intro: reachableGrid_lockTetrimino)
next
  case HardDrop
  with assms show ?thesis
    by (auto simp: hardDrop_def split: option.splits
        intro: reachableGrid_lockTetrimino [where s = "s\<lparr>currentTetrimino := Some u\<rparr>" for u])
qed (use assms in \<open>auto simp: grid_moves\<close>)

lemma reachable_reachableGrid: "reachable s \<Longrightarrow> reachableGrid (grid s)"
proof (induction rule: reachable.induct)
  case reachable_new
  show ?case by (simp add: newGameEngine_def rg_new)
next
  case (reachable_step s env c s')
  then show ?case by (auto intro: reachableGrid_step)
qed

lemma clearLines_repeat:
  assumes "wf_grid g" "filter completeRow (cells g) = []"
  shows "\<exists>os m. clearLines g d = Some (g\<lparr>orbs := os\<rparr>, 0, m)"
proof -
  have "filter (\<lambda>row. \<not> completeRow row) (cells g) = cells g"
    using assms(2) by (simp add: filter_empty_conv filter_id_conv)
  then show ?thesis
    using clearLines_result [OF assms(1), of d] by (simp add: assms(2))
qed

lemma emptyRows_step:
  assumes "emptyRows g" "0 \<le> yy" "yy < height g"
  shows "isLineComplete g yy"
    and "\<exists>g2. clearLine g yy = Some g \<and> shiftLinesDown g yy = Some g2 \<and> emptyRows g2"
proof -
  let ?cs = "cells g"
  have k: "nat yy < length ?cs" using assms by (simp add: emptyRows_def)
  have rows: "row = []" if "row \<in> set ?cs" for row
    using that assms(1) by (simp add: emptyRows_def list_all_iff)
  have "?cs ! nat yy = []" using k rows by simp
  then show "isLineComplete g yy" by (simp add: isLineComplete_def)
  have w: "width g = 0" using assms(1) by (simp add: emptyRows_def)
  have c: "clearLine g yy = Some g"
    by (simp add: clearLine_def w)
  let ?cs2 = "hd ?cs # take (nat yy) ?cs @ drop (Suc (nat yy)) ?cs"
  have f: "fold (\<lambda>yi cs. cs[yi := cs ! (yi - 1)]) (rev [1..<Suc (nat yy)]) ?cs = ?cs2"
    using k by (rule fold_shift_rows)
  have c2: "clearLine (g\<lparr>cells := ?cs2\<rparr>) 0 = Some (g\<lparr>cells := ?cs2\<rparr>)"
    using w by (simp add: clearLine_def width_def)
  have sh: "shiftLinesDown g yy = Some (shiftOrbsDown (g\<lparr>cells := ?cs2\<rparr>) yy)"
    unfolding shiftLinesDown_def f c2 using assms(3) by simp
  have "hd ?cs \<in> set ?cs" using k by (cases ?cs) simp_all
  then have "row = []" if "row \<in> set ?cs2" for row
    using that rows by (auto dest: in_set_takeD in_set_dropD)
  moreover have "length ?cs2 = length ?cs" using k by simp
  ultimately have "emptyRows (shiftOrbsDown (g\<lparr>cells := ?cs2\<rparr>) yy)"
    using assms(1)
    by (simp add: emptyRows_def shiftOrbsDown_def width_def height_def list_all_iff
        del: set_simps set_append)
  with c sh show "\<exists>g2. clearLine g yy = Some g \<and> shiftLinesDown g yy = Some g2 \<and> emptyRows g2"
    by blast
qed

lemma clearLines_loop_emptyRows:
  assumes "clearLines_loop g yy n m r = Some res"
  shows "\<not> (emptyRows g \<and> 0 \<le> yy \<and> yy < height g)"
proof (rule clearLines_loop.raw_induct
    [where P = "\<lambda>g yy n m r res. \<not> (emptyRows g \<and> 0 \<le> yy \<and> yy < height g)", OF _ assms])
  fix loop g yy n m r res
  assume IH: "\<And>g yy n m r res. loop g yy n m r = Some res
      \<Longrightarrow> \<not> (emptyRows g \<and> 0 \<le> yy \<and> yy < height g)"
    and body: "(if 0 \<le> yy then
        (if isLineComplete g yy then
           (let hit = filter (\<lambda>orb. posY (orbPosition orb) = yy) (orbs g) in
            case clearLine g yy of
              None \<Rightarrow> None
            | Some g1 \<Rightarrow>
                (case shiftLinesDown g1 yy of
                   None \<Rightarrow> None
                 | Some g2 \<Rightarrow>
                     loop g2 yy (n + 1)
                       (fold (\<lambda>orb m. wrap32 (m * orbMultiplier orb)) hit m)
                       (r @ hit)))
         else loop g (yy - 1) n m r)
      else Some (g, n, m, r)) = Some res"
  show "\<not> (emptyRows g \<and> 0 \<le> yy \<and> yy < height g)"
  proof
    assume a: "emptyRows g \<and> 0 \<le> yy \<and> yy < height g"
    then obtain g2 where c: "clearLine g yy = Some g" and sh: "shiftLinesDown g yy = Some g2"
      and e2: "emptyRows g2"
      using emptyRows_step(2) [of g yy] by blast
    have h2: "yy < height g2"
      using gridHeight_shiftLinesDown [OF sh] a by (simp add: height_def)
    have "\<exists>n' m' r'. loop g2 yy n' m' r' = Some res"
      using body a emptyRows_step(1) [of g yy] c sh by (auto simp: Let_def)
    then show False
      using IH e2 a h2 by blast
  qed
qed

lemma clearLines_emptyRows: "emptyRows g \<Longrightarrow> clearLines g d = None"
proof (rule ccontr)
  assume e: "emptyRows g" and "clearLines g d \<noteq> None"
  then obtain res where "clearLines_loop g (height g - 1) 0 1 [] = Some res"
    by (auto simp: clearLines_def split: option.splits)
  from clearLines_loop_emptyRows [OF this] e show False
    by (simp add: emptyRows_def)
qed

lemma oneFullRow_count: "length (filter completeRow (cells oneFullRow)) = 1"
  by code_simp

lemma noComplete_rows:
  assumes "filter completeRow (cells g) = []" "0 \<le> yy" "yy < height g" "wf_grid g"
  shows "\<not> isLineComplete g yy"
proof -
  have "nat yy < length (cells g)" using assms by (simp add: wf_grid_def)
  then have "cells g ! nat yy \<in> set (cells g)" by simp
  with assms(1) show ?thesis
    by (auto simp: isLineComplete_completeRow filter_empty_conv)
qed

text \<open>
  Claim C1. From every reachable grid state (and the grid of every reachable engine
  state is one), \<open>clearLines()\<close> returns: it reports as many cleared lines as the grid
  had complete rows, the matrix afterwards is the old one with its complete rows taken
  out and that many empty rows added on top, so that cascading clears are resolved
  within the call and no row is complete afterwards; and an immediately repeated call
  clears zero lines and leaves the cells as they are. (A grid constructed with width
  \<open>0\<close> and a positive height is the one case set apart: each of its empty rows counts
  as complete, and \<open>clearLines()\<close> never returns from it.)
\<close>

theorem clearLines_no_complete_row:
  "(reachable s \<longrightarrow> reachableGrid (grid s)) \<and>
   (reachableGrid g \<longrightarrow>
      (\<exists>g' m. clearLines g d = Some (g', int (length (filter completeRow (cells g))), m) \<and>
         cells g' = replicate (length (filter completeRow (cells g)))
                      (replicate (nat (width g)) 0)
                    @ filter (\<lambda>row. \<not> completeRow row) (cells g) \<and>
         (\<forall>yy. 0 \<le> yy \<and> yy < height g' \<longrightarrow> \<not> isLineComplete g' yy) \<and>
         (\<exists>g'' m'. clearLines g' d' = Some (g'', 0, m') \<and> cells g'' = cells g'))) \<and>
   (emptyRows g0 \<longrightarrow> clearLines g0 d = None)"
proof -
  have main: "\<exists>g' m. clearLines g d = Some (g', int (length (filter completeRow (cells g))), m) \<and>
         cells g' = replicate (length (filter completeRow (cells g)))
                      (replicate (nat (width g)) 0)
                    @ filter (\<lambda>row. \<not> completeRow row) (cells g) \<and>
         (\<forall>yy. 0 \<le> yy \<and> yy < height g' \<longrightarrow> \<not> isLineComplete g' yy) \<and>
         (\<exists>g'' m'. clearLines g' d' = Some (g'', 0, m') \<and> cells g'' = cells g')"
    if r: "reachableGrid g"
  proof -
    have w: "wf_grid g" using r by (rule reachableGrid_wf)
    from clearLines_result [OF w, of d] obtain os m where
      c: "clearLines g d =
           Some (g\<lparr>cells := replicate (length (filter completeRow (cells g)))
                         (replicate (nat (width g)) 0)
                       @ filter (\<lambda>row. \<not> completeRow row) (cells g), orbs := os\<rparr>,
                 int (length (filter completeRow (cells g))), m)"
      by blast
    let ?g' = "g\<lparr>cells := replicate (length (filter completeRow (cells g)))
                         (replicate (nat (width g)) 0)
                       @ filter (\<lambda>row. \<not> completeRow row) (cells g), orbs := os\<rparr>"
    have w': "wf_grid ?g'" using w c by (rule wf_grid_clearLines)
    have "0 < nat (width g)" using w by (simp add: wf_grid_def)
    then have n: "filter completeRow (cells ?g') = []"
      by (auto simp: filter_empty_conv zero_row_incomplete)
    have rows: "\<forall>yy. 0 \<le> yy \<and> yy < height ?g' \<longrightarrow> \<not> isLineComplete ?g' yy"
      using noComplete_rows [OF n _ _ w'] by blast
    from clearLines_repeat [OF w' n, of d'] obtain os' m' where
      "clearLines ?g' d' = Some (?g'\<lparr>orbs := os'\<rparr>, 0, m')"
      by blast
    then have "\<exists>g'' m'. clearLines ?g' d' = Some (g'', 0, m') \<and> cells g'' = cells ?g'"
      by simp
    with c rows show ?thesis by simp
  qed
  show ?thesis
    using main reachable_reachableGrid clearLines_emptyRows by blast
qed

theorem clearLines_no_complete_row_witness:
  "reachable newGameEngine \<and> reachableGrid oneFullRow \<and>
   (\<exists>g' m. clearLines oneFullRow (orbDraws quietEnv) = Some (g', 1, m) \<and>
      \<not> isLineComplete g' 19) \<and>
   emptyRows (newGrid 0 1) \<and> clearLines (newGrid 0 1) (orbDraws quietEnv) = None"
proof -
  have e: "emptyRows (newGrid 0 1)"
    by (simp add: emptyRows_def newGrid_def width_def height_def)
  have r: "reachableGrid oneFullRow"
    unfolding oneFullRow_def by (intro rg_place rg_new) simp_all
  have h: "gridHeight oneFullRow = 20"
    by (simp add: oneFullRow_def gridHeight_place newGrid_def)
  have "\<exists>g' m. clearLines oneFullRow (orbDraws quietEnv) = Some (g', 1, m) \<and>
      (\<forall>yy. 0 \<le> yy \<and> yy < height g' \<longrightarrow> \<not> isLineComplete g' yy)"
    using clearLines_no_complete_row
      [of newGameEngine oneFullRow "orbDraws quietEnv" "orbDraws quietEnv" "newGrid 0 1"] r
    unfolding oneFullRow_count by (simp del: replicate.simps) blast
  then obtain g' m where
    c: "clearLines oneFullRow (orbDraws quietEnv) = Some (g', 1, m)"
    and n: "\<forall>yy. 0 \<le> yy \<and> yy < height g' \<longrightarrow> \<not> isLineComplete g' yy"
    by blast
  have "height g' = 20"
    using gridHeight_clearLines [OF c] h by (simp add: height_def)
  with n have "\<not> isLineComplete g' 19" by simp
  moreover have "clearLines (newGrid 0 1) (orbDraws quietEnv) = None"
    using clearLines_no_complete_row
      [of newGameEngine oneFullRow "orbDraws quietEnv" "orbDraws quietEnv" "newGrid 0 1"] e
    by blast
  ultimately show ?thesis
    using c r e reachable_new by blast
qed

section \<open>The BOMB power-up\<close>

lemma getBlocks_nonempty: "getBlocks t \<noteq> []"
  using getBlocks_has_block [of t] by auto

lemma getBlocks_int32:
  "p \<in> set (getBlocks t) \<Longrightarrow> int32 (posX p) \<and> int32 (posY p)"
  by (auto simp: getBlocks_def rowBlocks_def int32_wrap32)

lemma sum_list_bounds:
  "\<forall>v \<in> set vs. lo \<le> v \<and> v \<le> hi \<Longrightarrow>
     int (length vs) * lo \<le> sum_list vs \<and> sum_list vs \<le> int (length vs) * hi"
  by (induction vs) (auto simp: algebra_simps)

lemma averageToInt_bounds:
  assumes "vs \<noteq> []" "\<forall>v \<in> set vs. lo \<le> v \<and> v \<le> hi"
  shows "lo \<le> averageToInt vs \<and> averageToInt vs \<le> hi"
proof -
  let ?n = "length vs"
  let ?avg = "(of_int (sum_list vs) / of_nat ?n :: rat)"
  have n: "(0::rat) < of_nat ?n" using assms(1) by simp
  have b: "int ?n * lo \<le> sum_list vs" "sum_list vs \<le> int ?n * hi"
    using sum_list_bounds [OF assms(2)] by simp_all
  have "(of_int (int ?n * lo) :: rat) \<le> of_int (sum_list vs)"
    using b(1) by (simp only: of_int_le_iff)
  then have lo: "(of_int lo :: rat) \<le> ?avg"
    using n by (simp add: pos_le_divide_eq mult.commute)
  have "(of_int (sum_list vs) :: rat) \<le> of_int (int ?n * hi)"
    using b(2) by (simp only: of_int_le_iff)
  then have hi: "?avg \<le> (of_int hi :: rat)"
    using n by (simp add: pos_divide_le_eq mult.commute)
  have "lo \<le> \<lfloor>?avg\<rfloor>" using lo by (simp add: le_floor_iff)
  moreover have "\<lfloor>?avg\<rfloor> \<le> hi" using hi by (simp add: floor_le_iff; linarith)
  moreover have "lo \<le> \<lceil>?avg\<rceil>" using lo by (simp add: le_ceiling_iff; linarith)
  moreover have "\<lceil>?avg\<rceil> \<le> hi" using hi by (simp add: ceiling_le_iff)
  ultimately show ?thesis
    by (simp add: averageToInt_def Let_def)
qed

lemma centroid_int32:
  "int32 (averageToInt (map posX (getBlocks t)))"
  "int32 (averageToInt (map posY (getBlocks t)))"
proof -
  have "\<forall>v \<in> set (map posX (getBlocks t)). - 2147483648 \<le> v \<and> v \<le> 2147483647"
    using getBlocks_int32 [of _ t] by (fastforce simp: int32_def)
  from averageToInt_bounds [OF _ this] show "int32 (averageToInt (map posX (getBlocks t)))"
    by (simp add: getBlocks_nonempty int32_def)
  have "\<forall>v \<in> set (map posY (getBlocks t)). - 2147483648 \<le> v \<and> v \<le> 2147483647"
    using getBlocks_int32 [of _ t] by (fastforce simp: int32_def)
  from averageToInt_bounds [OF _ this] show "int32 (averageToInt (map posY (getBlocks t)))"
    by (simp add: getBlocks_nonempty int32_def)
qed

lemma wrap_range:
  assumes "int32 c" "0 \<le> x" "x < 2147483646"
  shows "(wrap32 (c - 1) \<le> x \<and> x \<le> wrap32 (c + 1)) = (c - 1 \<le> x \<and> x \<le> c + 1)"
proof -
  consider "c = - 2147483648" | "c = 2147483647" | "- 2147483648 < c" "c < 2147483647"
    using assms(1) unfolding int32_def by atomize_elim arith
  then show ?thesis
  proof cases
    case 1
    then show ?thesis using assms by (simp add: wrap32_def)
  next
    case 2
    then show ?thesis using assms by (simp add: wrap32_def)
  next
    case 3
    then have "wrap32 (c - 1) = c - 1" "wrap32 (c + 1) = c + 1"
      by (simp_all add: wrap32_id int32_def)
    then show ?thesis by simp
  qed
qed

lemma in_blastPositions:
  "p \<in> set (blastPositions cx cy) \<longleftrightarrow>
     wrap32 (cx - 1) \<le> posX p \<and> posX p \<le> wrap32 (cx + 1) \<and>
     wrap32 (cy - 1) \<le> posY p \<and> posY p \<le> wrap32 (cy + 1)"
  by (cases p) (auto simp: blastPositions_def image_iff)

lemma setCell_cellAt:
  assumes "wf_grid g" "isInBounds g a" "isInBounds g p"
  shows "cellAt (setCell g a v) p = (if p = a then v else cellAt g p)"
proof -
  have ya: "nat (posY a) < length (cells g)" and yp: "nat (posY p) < length (cells g)"
    using assms by (simp_all add: isInBounds_def wf_grid_def)
  have xa: "nat (posX a) < length (cells g ! nat (posY a))"
    using assms ya by (simp add: isInBounds_def wf_grid_def list_all_length)
  have e: "p = a \<longleftrightarrow> nat (posY p) = nat (posY a) \<and> nat (posX p) = nat (posX a)"
    using assms(2,3) by (cases p; cases a) (auto simp: isInBounds_def)
  show ?thesis
    using ya yp xa by (auto simp: cellAt_def setCell_def e nth_list_update)
qed

lemma isInBounds_cong:
  "gridWidth g' = gridWidth g \<Longrightarrow> gridHeight g' = gridHeight g \<Longrightarrow>
     isInBounds g' p = isInBounds g p"
  by (simp add: isInBounds_def width_def height_def)

lemma bomb_fold:
  assumes "wf_grid g"
  shows "wf_grid (fold (\<lambda>p ga. if isInBounds ga p then clearCell ga p else ga) ps g) \<and>
     (\<exists>cs. fold (\<lambda>p ga. if isInBounds ga p then clearCell ga p else ga) ps g
              = g\<lparr>cells := cs\<rparr>) \<and>
     (\<forall>p. isInBounds g p \<longrightarrow>
        cellAt (fold (\<lambda>p ga. if isInBounds ga p then clearCell ga p else ga) ps g) p
          = (if p \<in> set ps then 0 else cellAt g p))"
  using assms
proof (induction ps arbitrary: g)
  case Nil
  have "\<exists>cs. g = g\<lparr>cells := cs\<rparr>" by (rule exI [of _ "cells g"]) simp
  then show ?case using Nil by simp
next
  case (Cons a ps)
  define g1 where "g1 = (if isInBounds g a then clearCell g a else g)"
  have w1: "wf_grid g1" using Cons.prems by (simp add: g1_def wf_grid_clearCell)
  have c1: "g1 = g\<lparr>cells := cells g1\<rparr>"
    by (simp add: g1_def clearCell_def setCell_def)
  have b1: "isInBounds g1 p = isInBounds g p" for p
    by (simp add: g1_def clearCell_def setCell_def isInBounds_def width_def height_def)
  have a1: "cellAt g1 p = (if p = a then 0 else cellAt g p)" if "isInBounds g p" for p
    using that Cons.prems by (auto simp: g1_def clearCell_def setCell_cellAt)
  have f: "fold (\<lambda>p ga. if isInBounds ga p then clearCell ga p else ga) (a # ps) g
      = fold (\<lambda>p ga. if isInBounds ga p then clearCell ga p else ga) ps g1"
    by (simp add: g1_def)
  from Cons.IH [OF w1] obtain cs where
    w: "wf_grid (fold (\<lambda>p ga. if isInBounds ga p then clearCell ga p else ga) ps g1)"
    and c: "fold (\<lambda>p ga. if isInBounds ga p then clearCell ga p else ga) ps g1 = g1\<lparr>cells := cs\<rparr>"
    and v: "\<forall>p. isInBounds g1 p \<longrightarrow>
        cellAt (fold (\<lambda>p ga. if isInBounds ga p then clearCell ga p else ga) ps g1) p
          = (if p \<in> set ps then 0 else cellAt g1 p)"
    by blast
  have "g1\<lparr>cells := cs\<rparr> = g\<lparr>cells := cs\<rparr>"
    by (subst c1) simp
  with c have c': "fold (\<lambda>p ga. if isInBounds ga p then clearCell ga p else ga) ps g1
      = g\<lparr>cells := cs\<rparr>"
    by simp
  have "cellAt (fold (\<lambda>p ga. if isInBounds ga p then clearCell ga p else ga) ps g1) p
      = (if p \<in> set (a # ps) then 0 else cellAt g p)" if "isInBounds g p" for p
    using v [rule_format, of p] that a1 [OF that] by (cases "p = a") (simp_all add: b1)
  with w c' show ?case unfolding f by blast
qed

lemma completeRow_cellAt:
  assumes "wf_grid g" "0 \<le> i" "i < height g"
  shows "completeRow (cells g ! nat i) \<longleftrightarrow>
     (\<forall>x. 0 \<le> x \<and> x < width g \<longrightarrow> 0 < cellAt g (Position x i))"
proof -
  have k: "nat i < length (cells g)" using assms by (simp add: wf_grid_def)
  then have len: "length (cells g ! nat i) = nat (width g)"
    using assms(1) by (simp add: wf_grid_def list_all_length)
  show ?thesis
  proof
    assume c: "completeRow (cells g ! nat i)"
    show "\<forall>x. 0 \<le> x \<and> x < width g \<longrightarrow> 0 < cellAt g (Position x i)"
    proof (intro allI impI)
      fix x assume "0 \<le> x \<and> x < width g"
      then have "nat x < length (cells g ! nat i)" by (simp add: len)
      with c show "0 < cellAt g (Position x i)"
        by (simp add: completeRow_def list_all_length cellAt_def)
    qed
  next
    assume a: "\<forall>x. 0 \<le> x \<and> x < width g \<longrightarrow> 0 < cellAt g (Position x i)"
    have "0 < cells g ! nat i ! n" if "n < length (cells g ! nat i)" for n
      using a [rule_format, of "int n"] that by (simp add: len cellAt_def)
    then show "completeRow (cells g ! nat i)"
      by (simp add: completeRow_def list_all_length)
  qed
qed

lemma noComplete_iff:
  assumes "wf_grid g"
  shows "filter completeRow (cells g) = [] \<longleftrightarrow>
     (\<forall>i. 0 \<le> i \<and> i < height g \<longrightarrow> \<not> completeRow (cells g ! nat i))"
proof
  assume f: "filter completeRow (cells g) = []"
  show "\<forall>i. 0 \<le> i \<and> i < height g \<longrightarrow> \<not> completeRow (cells g ! nat i)"
  proof (intro allI impI)
    fix i assume "0 \<le> i \<and> i < height g"
    then have "nat i < length (cells g)" using assms by (simp add: wf_grid_def)
    then have "cells g ! nat i \<in> set (cells g)" by simp
    with f show "\<not> completeRow (cells g ! nat i)" by (auto simp: filter_empty_conv)
  qed
next
  assume a: "\<forall>i. 0 \<le> i \<and> i < height g \<longrightarrow> \<not> completeRow (cells g ! nat i)"
  have "\<not> completeRow row" if "row \<in> set (cells g)" for row
  proof -
    from that obtain n where n: "n < length (cells g)" "row = cells g ! n"
      by (auto simp: in_set_conv_nth)
    then have "int n < height g" using assms by (simp add: wf_grid_def)
    with a [rule_format, of "int n"] n show ?thesis by simp
  qed
  then show "filter completeRow (cells g) = []"
    by (auto simp: filter_empty_conv)
qed

lemma cleared_cells_noComplete:
  assumes "wf_grid g" "wf_grid g'" "gridWidth g' = gridWidth g" "gridHeight g' = gridHeight g"
    and "filter completeRow (cells g) = []"
    and "\<And>p. isInBounds g p \<Longrightarrow> cellAt g' p = 0 \<or> cellAt g' p = cellAt g p"
  shows "filter completeRow (cells g') = []"
proof -
  have d: "width g' = width g" "height g' = height g"
    using assms(3,4) by (simp_all add: width_def height_def)
  have "\<not> completeRow (cells g' ! nat i)" if i: "0 \<le> i \<and> i < height g'" for i
  proof -
    have "\<not> completeRow (cells g ! nat i)"
      using assms(5) i noComplete_iff [OF assms(1)] d by simp
    then obtain x where x: "0 \<le> x" "x < width g" "cellAt g (Position x i) \<le> 0"
      using completeRow_cellAt [OF assms(1), of i] i d by (auto simp: not_less)
    have "isInBounds g (Position x i)"
      using x i d by (simp add: isInBounds_def)
    from assms(6) [OF this] x(3) have "cellAt g' (Position x i) \<le> 0" by auto
    then show ?thesis
      using completeRow_cellAt [OF assms(2), of i] i x d by (auto simp: not_less)
  qed
  then show ?thesis
    using noComplete_iff [OF assms(2)] by simp
qed

lemma gridWidth_place: "gridWidth (place g t) = gridWidth g"
proof -
  have "gridWidth (fold (\<lambda>p ga. if isInBounds ga p then setCell ga p c else ga) ps g0)
      = gridWidth g0" for c ps g0
    by (rule fold_invariant [where P = "\<lambda>ga. gridWidth ga = gridWidth g0"])
      (simp_all add: gridWidth_setCell)
  then show ?thesis
    by (simp add: place_def getColorIndex_def split: option.splits prod.splits)
qed

lemma gridWidth_lockEffect:
  assumes "lockEffect s t = Some s1"
  shows "gridWidth (grid s1) = gridWidth (grid s)"
proof (cases "powerUp t")
  case None
  with assms show ?thesis by (auto simp: lockEffect_def gridWidth_place)
next
  case (Some pu)
  show ?thesis
  proof (cases pu)
    case BOMB
    have "gridWidth (fold (\<lambda>p ga. if isInBounds ga p then clearCell ga p else ga) ps (grid s))
        = gridWidth (grid s)" for ps
      by (rule fold_invariant [where P = "\<lambda>ga. gridWidth ga = gridWidth (grid s)"])
        (simp_all add: clearCell_def gridWidth_setCell)
    then show ?thesis
      using assms Some BOMB by (auto simp: lockEffect_def applyBombEffect_def Let_def)
  next
    case LINE_CLEAR
    from assms Some LINE_CLEAR obtain g' where
      f: "fold clearRow (distinctFirst (map posY (getBlocks t))) (Some (grid s)) = Some g'"
      and g': "grid s1 = g'"
      by (auto simp: lockEffect_def applyLineClearEffect_def Let_def split: option.splits)
    have "gridWidth g' = gridWidth (grid s)"
      using f
      by (rule fold_clearRow_invariant [where P = "\<lambda>ga. gridWidth ga = gridWidth (grid s)"])
        (auto simp: clearLine_def shiftLinesDown_def shiftOrbsDown_def
          split: if_splits option.splits)
    then show ?thesis by (simp add: g')
  next
    case GHOST
    with assms Some show ?thesis by (auto simp: lockEffect_def gridWidth_place)
  qed
qed

text \<open>What holds of the grid in every state the engine reaches.\<close>

lemma lockTetrimino_grid_inv:
  assumes "lockTetrimino env s = Some s'" "reachableGrid (grid s)"
    "filter completeRow (cells (grid s)) = []"
  shows "gridWidth (grid s') = gridWidth (grid s) \<and> filter completeRow (cells (grid s')) = []"
proof (cases "currentTetrimino s")
  case None
  with assms show ?thesis by (simp add: lockTetrimino_def)
next
  case (Some t)
  from lockTetrimino_grid [OF assms(1) Some] obtain s1 n m where
    e: "lockEffect s t = Some s1" and c: "clearLines (grid s1) (orbDraws env) = Some (grid s', n, m)"
    by blast
  have w1: "wf_grid (grid s1)"
    using reachableGrid_lockEffect [OF e assms(2)] by (rule reachableGrid_wf)
  from clearLines_result [OF w1, of "orbDraws env"] c obtain os where
    g': "grid s' = (grid s1)\<lparr>cells := replicate (length (filter completeRow (cells (grid s1))))
                       (replicate (nat (width (grid s1))) 0)
                     @ filter (\<lambda>row. \<not> completeRow row) (cells (grid s1)), orbs := os\<rparr>"
    by auto
  have "0 < nat (width (grid s1))" using w1 by (simp add: wf_grid_def)
  then have "filter completeRow (cells (grid s')) = []"
    unfolding g' by (auto simp: filter_empty_conv zero_row_incomplete)
  moreover have "gridWidth (grid s') = gridWidth (grid s)"
    using gridWidth_lockEffect [OF e] by (simp add: g')
  ultimately show ?thesis by simp
qed

lemma grid_inv_step:
  assumes "reachableGrid (grid s)" "gridWidth (grid s) = 10"
    "filter completeRow (cells (grid s)) = []" "step env c s = Some s'"
  shows "gridWidth (grid s') = 10 \<and> filter completeRow (cells (grid s')) = []"
proof (cases c)
  case StartGame
  have w: "wf_grid (grid s)" using assms(1) by (rule reachableGrid_wf)
  then have "0 < nat (width (grid s))" by (simp add: wf_grid_def)
  then have "filter completeRow (cells (reset (grid s))) = []"
    by (simp add: reset_cells [OF w] zero_row_incomplete)
  with assms StartGame show ?thesis
    by (auto simp: startGame_def grid_spawnTetrimino reset_def)
next
  case MoveDown
  with assms show ?thesis
    using lockTetrimino_grid_inv [of env s]
    by (auto simp: moveDown_def Let_def split: option.splits if_splits)
next
  case HardDrop
  show ?thesis
  proof (cases "currentTetrimino s")
    case None
    with assms HardDrop show ?thesis by (simp add: hardDrop_def)
  next
    case (Some t)
    with assms HardDrop show ?thesis
      using lockTetrimino_grid_inv [of env "s\<lparr>currentTetrimino := Some (dropDown (grid s) t)\<rparr>" s']
      by (simp add: hardDrop_def)
  qed
qed (use assms in \<open>auto simp: grid_moves\<close>)

lemma reachable_grid_inv:
  "reachable s \<Longrightarrow> gridWidth (grid s) = 10 \<and> filter completeRow (cells (grid s)) = []"
proof (induction rule: reachable.induct)
  case reachable_new
  show ?case by (simp add: newGameEngine_def newGrid_def filter_empty_conv zero_row_incomplete)
next
  case (reachable_step s env c s')
  then show ?case
    using grid_inv_step [of s env c s'] reachable_reachableGrid [of s] by blast
qed

lemma wrap32_idem: "wrap32 (wrap32 n) = wrap32 n"
  by (rule wrap32_id) (rule int32_wrap32)

lemma lock_no_lines:
  assumes "currentTetrimino s = Some t" "lockEffect s t = Some s1"
    "clearLines (grid s1) (orbDraws env) = Some (g, 0, m)"
  shows "\<exists>s'. lockTetrimino env s = Some s' \<and> grid s' = g \<and> score s' = wrap32 (score s1)"
  using assms
  by (simp add: lockTetrimino_def Let_def grid_spawnTetrimino checkLevelUp_def updateScore_def
      checkMultiplierExpiration_def basePoints_def spawnTetrimino_def updateGhostPosition_def
      wrap32_def [of 0])

lemma bomb_lock_cells:
  assumes "reachable s" "powerUp t = Some BOMB"
  shows "\<exists>s'. lockTetrimino env (s\<lparr>currentTetrimino := Some t\<rparr>) = Some s' \<and>
     gridWidth (grid s') = gridWidth (grid s) \<and> gridHeight (grid s') = gridHeight (grid s) \<and>
     (\<forall>p. isInBounds (grid s) p \<longrightarrow>
        cellAt (grid s') p = (if inBlast (centroid t) p then 0 else cellAt (grid s) p)) \<and>
     score s' = wrap32 (score s + wrap32 (500 * multiplier s))"
proof -
  let ?s0 = "s\<lparr>currentTetrimino := Some t\<rparr>"
  let ?cx = "averageToInt (map posX (getBlocks t))"
  let ?cy = "averageToInt (map posY (getBlocks t))"
  let ?g1 = "fold (\<lambda>p ga. if isInBounds ga p then clearCell ga p else ga)
      (blastPositions ?cx ?cy) (grid s)"
  let ?s1 = "?s0\<lparr>grid := ?g1, score := wrap32 (score s + wrap32 (500 * multiplier s))\<rparr>"
  have w: "wf_grid (grid s)"
    using assms(1) by (intro reachableGrid_wf reachable_reachableGrid)
  have inv: "gridWidth (grid s) = 10" "filter completeRow (cells (grid s)) = []"
    using reachable_grid_inv [OF assms(1)] by simp_all
  have h: "gridHeight (grid s) = 20"
    using reachable_engineInv [OF assms(1)] by (simp add: engineInv_def)
  from bomb_fold [OF w, of "blastPositions ?cx ?cy"] obtain cs where
    w1: "wf_grid ?g1" and c1: "?g1 = (grid s)\<lparr>cells := cs\<rparr>"
    and v1: "\<forall>p. isInBounds (grid s) p \<longrightarrow>
        cellAt ?g1 p = (if p \<in> set (blastPositions ?cx ?cy) then 0 else cellAt (grid s) p)"
    by blast
  have d1: "gridWidth ?g1 = gridWidth (grid s)" "gridHeight ?g1 = gridHeight (grid s)"
    by (simp_all add: c1)
  have blast: "p \<in> set (blastPositions ?cx ?cy) \<longleftrightarrow> inBlast (centroid t) p"
    if "isInBounds (grid s) p" for p
  proof -
    have x: "0 \<le> posX p" "posX p < 2147483646" and y: "0 \<le> posY p" "posY p < 2147483646"
      using that inv(1) h by (simp_all add: isInBounds_def width_def height_def)
    show ?thesis
      using wrap_range [OF centroid_int32(1) x, of t] wrap_range [OF centroid_int32(2) y, of t]
      by (auto simp: in_blastPositions inBlast_def centroid_def)
  qed
  have cells1: "cellAt ?g1 p = (if inBlast (centroid t) p then 0 else cellAt (grid s) p)"
    if "isInBounds (grid s) p" for p
    using v1 that blast [OF that] by simp
  have n1: "filter completeRow (cells ?g1) = []"
    using w w1 d1 inv(2)
  proof (rule cleared_cells_noComplete)
    fix p assume "isInBounds (grid s) p"
    from cells1 [OF this] show "cellAt ?g1 p = 0 \<or> cellAt ?g1 p = cellAt (grid s) p"
      by (simp split: if_splits)
  qed
  have e: "lockEffect ?s0 t = Some ?s1"
    using assms(2) by (simp add: lockEffect_def applyBombEffect_def Let_def getBlocks_nonempty)
  from clearLines_repeat [OF w1 n1, of "orbDraws env"] obtain os m where
    c: "clearLines (grid ?s1) (orbDraws env) = Some (?g1\<lparr>orbs := os\<rparr>, 0, m)"
    by auto
  have "currentTetrimino ?s0 = Some t" by simp
  from lock_no_lines [OF this e c] obtain s' where
    l: "lockTetrimino env ?s0 = Some s'" and g: "grid s' = ?g1\<lparr>orbs := os\<rparr>"
    and sc: "score s' = wrap32 (score ?s1)"
    by blast
  have "cellAt (grid s') p = cellAt ?g1 p" for p
    by (simp add: g cellAt_def)
  with cells1 have "\<forall>p. isInBounds (grid s) p \<longrightarrow>
      cellAt (grid s') p = (if inBlast (centroid t) p then 0 else cellAt (grid s) p)"
    by simp
  moreover have "score s' = wrap32 (score s + wrap32 (500 * multiplier s))"
    using sc by (simp add: wrap32_idem)
  moreover have "gridWidth (grid s') = gridWidth (grid s)" "gridHeight (grid s') = gridHeight (grid s)"
    using d1 by (simp_all add: g)
  ultimately show ?thesis
    using l by blast
qed

text \<open>
  \<open>lockTetrimino()\<close> is private: \<open>hardDrop()\<close> calls it on the piece at the end of its
  descent, and \<open>moveDown()\<close> on the current piece when that cannot move down. The
  descent leaves the power-up of a piece as it is.
\<close>

lemma powerUp_dropDown: "powerUp (dropDown g u) = powerUp u"
proof (induction g u rule: dropDown.induct)
  case (1 g t)
  then show ?case
    by (subst dropDown.simps) (simp add: tetriminoMoveDown_def)
qed

lemma lock_entry_points:
  assumes "currentTetrimino s = Some u"
  shows "step env HardDrop s
           = lockTetrimino env (s\<lparr>currentTetrimino := Some (dropDown (grid s) u)\<rparr>)"
    and "\<not> isValidMove (grid s) (tetriminoMoveDown u) \<Longrightarrow>
           step env MoveDown s = lockTetrimino env (s\<lparr>currentTetrimino := Some u\<rparr>)"
proof -
  show "step env HardDrop s
      = lockTetrimino env (s\<lparr>currentTetrimino := Some (dropDown (grid s) u)\<rparr>)"
    using assms by (simp add: hardDrop_def)
  have e: "s\<lparr>currentTetrimino := Some u\<rparr> = s" using assms by simp
  show "step env MoveDown s = lockTetrimino env (s\<lparr>currentTetrimino := Some u\<rparr>)"
    if "\<not> isValidMove (grid s) (tetriminoMoveDown u)"
    unfolding e using assms that
    by (simp add: moveDown_def option.map_comp comp_def option.map_ident)
qed

text \<open>
  Claim C5. Locking a tetrimino \<open>t\<close> that carries the BOMB power-up, on the grid of any
  state the engine reaches, returns; afterwards every cell of the grid within the 3 by 3
  square around the centroid of \<open>t\<close> (the truncated means of its blocks' columns and
  rows) is empty and every other cell is as before the lock, so that none of the blocks
  of \<open>t\<close> is placed; and the score has grown by \<open>500 * multiplier\<close> in \<open>Int\<close>
  arithmetic. With the centroid at \<open>(5, 10)\<close> the cleared cells are those with
  \<open>4 \<le> x \<le> 6\<close> and \<open>9 \<le> y \<le> 11\<close>.
\<close>

theorem bomb_lock:
  assumes "reachable s" "powerUp t = Some BOMB"
  shows "\<exists>s'. lockTetrimino env (s\<lparr>currentTetrimino := Some t\<rparr>) = Some s' \<and>
     gridWidth (grid s') = gridWidth (grid s) \<and> gridHeight (grid s') = gridHeight (grid s) \<and>
     (\<forall>p. isInBounds (grid s) p \<longrightarrow>
        cellAt (grid s') p = (if inBlast (centroid t) p then 0 else cellAt (grid s) p)) \<and>
     score s' = wrap32 (score s + wrap32 (500 * multiplier s)) \<and>
     (centroid t = Position 5 10 \<longrightarrow>
        (\<forall>p. isInBounds (grid s) p \<longrightarrow>
           cellAt (grid s') p =
             (if 4 \<le> posX p \<and> posX p \<le> 6 \<and> 9 \<le> posY p \<and> posY p \<le> 11 then 0
              else cellAt (grid s) p)))"
proof -
  from bomb_lock_cells [OF assms, of env] obtain s' where
    l: "lockTetrimino env (s\<lparr>currentTetrimino := Some t\<rparr>) = Some s'"
    and d: "gridWidth (grid s') = gridWidth (grid s)" "gridHeight (grid s') = gridHeight (grid s)"
    and c: "\<forall>p. isInBounds (grid s) p \<longrightarrow>
        cellAt (grid s') p = (if inBlast (centroid t) p then 0 else cellAt (grid s) p)"
    and sc: "score s' = wrap32 (score s + wrap32 (500 * multiplier s))"
    by blast
  have "\<forall>p. isInBounds (grid s) p \<longrightarrow>
           cellAt (grid s') p =
             (if 4 \<le> posX p \<and> posX p \<le> 6 \<and> 9 \<le> posY p \<and> posY p \<le> 11 then 0
              else cellAt (grid s) p)" if "centroid t = Position 5 10"
    using c that by (simp add: inBlast_def)
  with l d c sc show ?thesis by blast
qed

theorem bomb_lock_witness:
  "reachable newGameEngine \<and> powerUp bombO = Some BOMB \<and> centroid bombO = Position 5 10 \<and>
   isInBounds (grid newGameEngine) (Position 4 9) \<and>
   (\<exists>s'. lockTetrimino quietEnv (newGameEngine\<lparr>currentTetrimino := Some bombO\<rparr>) = Some s' \<and>
      cellAt (grid s') (Position 4 9) = 0 \<and> score s' = 500)"
proof -
  have c: "centroid bombO = Position 5 10"
    by code_simp
  have p: "powerUp bombO = Some BOMB" by (simp add: bombO_def)
  have b: "isInBounds (grid newGameEngine) (Position 4 9)"
    by (simp add: isInBounds_def newGameEngine_def newGrid_def width_def height_def)
  from bomb_lock [OF reachable_new p, of quietEnv] c b obtain s' where
    "lockTetrimino quietEnv (newGameEngine\<lparr>currentTetrimino := Some bombO\<rparr>) = Some s'"
    "cellAt (grid s') (Position 4 9) = 0"
    "score s' = wrap32 (score newGameEngine + wrap32 (500 * multiplier newGameEngine))"
    by auto
  moreover have "wrap32 (score newGameEngine + wrap32 (500 * multiplier newGameEngine)) = 500"
    by (simp add: newGameEngine_def wrap32_def)
  ultimately show ?thesis
    using reachable_new c p b by auto
qed

end
